theory Spec2Isabelle
  imports Main "HOL-Library.AList" "HOL-Library.Sublist"
begin

chapter \<open>The inline text editor: structural keys, reconciliation, capture\<close>

text \<open>
  A shallow embedding of \<^verbatim>\<open>src/popup.js\<close>: the popup script (lines 1-179) and the
  content script (lines 180-481). The first part of the theory holds the program, the
  second part its properties.
\<close>

section \<open>JavaScript strings\<close>

text \<open>
  A JavaScript string is a sequence of UTF-16 code units; a code unit is modelled as a
  natural number. \<open>str\<close> turns an ASCII literal into such a sequence.
\<close>

type_synonym jsstring = "nat list"

definition str :: "string \<Rightarrow> jsstring" where
  "str s = map of_char s"

definition GT :: nat where
  "GT = 62"

definition COLON :: nat where
  "COLON = 58"

text \<open>
  The code units that \<^verbatim>\<open>String.prototype.trim\<close> and \<^verbatim>\<open>parseInt\<close> strip: ECMAScript's
  WhiteSpace (TAB, VT, FF, SP, NBSP, ZWNBSP and the space separators of Unicode) and
  LineTerminator (LF, CR, LS, PS).
\<close>

definition isWhiteSpace :: "nat \<Rightarrow> bool" where
  "isWhiteSpace c =
     (c = 9 \<or> c = 10 \<or> c = 11 \<or> c = 12 \<or> c = 13 \<or> c = 32 \<or> c = 160 \<or> c = 5760 \<or>
      (8192 \<le> c \<and> c \<le> 8202) \<or> c = 8232 \<or> c = 8233 \<or> c = 8239 \<or> c = 8287 \<or>
      c = 12288 \<or> c = 65279)"

definition js_trim :: "jsstring \<Rightarrow> jsstring" where
  "js_trim s = rev (dropWhile isWhiteSpace (rev (dropWhile isWhiteSpace s)))"

text \<open>A string is truthy when it is not empty; \<^verbatim>\<open>undefined\<close> is falsy.\<close>

definition truthy :: "jsstring option \<Rightarrow> bool" where
  "truthy v = (case v of None \<Rightarrow> False | Some s \<Rightarrow> s \<noteq> [])"

text \<open>
  \<^verbatim>\<open>s.split(sep)\<close> for a separator of one code unit: the empty string gives one empty
  field, and every occurrence of the separator starts a new field. The result is never
  empty, so \<open>hd\<close> and \<open>tl\<close> below are taken of a list that has a first field.
\<close>

fun js_split :: "nat \<Rightarrow> jsstring \<Rightarrow> jsstring list" where
  "js_split sep [] = [[]]"
| "js_split sep (c # cs) =
     (if c = sep then [] # js_split sep cs
      else (c # hd (js_split sep cs)) # tl (js_split sep cs))"

text \<open>\<^verbatim>\<open>xs.join(sep)\<close>; the empty array joins to the empty string.\<close>

fun js_join :: "nat \<Rightarrow> jsstring list \<Rightarrow> jsstring" where
  "js_join sep [] = []"
| "js_join sep [x] = x"
| "js_join sep (x # y # ys) = x @ sep # js_join sep (y # ys)"

text \<open>\<^verbatim>\<open>s.startsWith(p)\<close>.\<close>

definition startsWith :: "jsstring \<Rightarrow> jsstring \<Rightarrow> bool" where
  "startsWith s p = (take (length p) s = p)"

text \<open>
  The decimal numeral of an integer, as a template literal prints the result of
  \<^verbatim>\<open>indexOf\<close>: a minus sign for a negative number, then the digits.
\<close>

function digits10 :: "nat \<Rightarrow> jsstring" where
  "digits10 n = (if n < 10 then [48 + n] else digits10 (n div 10) @ [48 + n mod 10])"
  by pat_completeness auto
termination
  by (relation "measure (\<lambda>n. n)") auto

definition numToString :: "int \<Rightarrow> jsstring" where
  "numToString i = (if i < 0 then 45 # digits10 (nat (- i)) else digits10 (nat i))"

text \<open>\<^verbatim>\<open>xs.indexOf(x)\<close>: the first position of \<open>x\<close>, or \<open>-1\<close>.\<close>

fun indexOf :: "'a \<Rightarrow> 'a list \<Rightarrow> int" where
  "indexOf x [] = - 1"
| "indexOf x (y # ys) =
     (if x = y then 0 else (let i = indexOf x ys in if i < 0 then - 1 else i + 1))"

definition isDigit :: "nat \<Rightarrow> bool" where
  "isDigit c = (48 \<le> c \<and> c \<le> 57)"

text \<open>
  \<^verbatim>\<open>parseInt(s, 10)\<close>: leading white space is skipped, one sign is read, then the longest
  run of decimal digits; with no digit the result is \<^verbatim>\<open>NaN\<close>, here \<open>None\<close>. Whatever
  follows the digits is ignored. The result is kept here as the exact integer that the
  digits denote; the Number that JavaScript makes of it is the nearest double, which
  \<open>propertyKey\<close> below takes into account where the Number is turned into a string again.
\<close>

definition parseInt :: "jsstring \<Rightarrow> int option" where
  "parseInt inputString =
     (let S = dropWhile isWhiteSpace inputString;
          sign = (if S \<noteq> [] \<and> hd S = 45 then - 1 else 1);
          S' = (if S \<noteq> [] \<and> (hd S = 43 \<or> hd S = 45) then tl S else S);
          Z = takeWhile isDigit S'
      in if Z = [] then None
         else Some (sign * int (foldl (\<lambda>a c. 10 * a + (c - 48)) 0 Z)))"

text \<open>
  The destructuring \<^verbatim>\<open>const [, index] = p.split(":")\<close> takes the second field and gives
  \<^verbatim>\<open>undefined\<close> when there is none; \<^verbatim>\<open>parseInt\<close> then reads the string \<^verbatim>\<open>"undefined"\<close>.
\<close>

definition second :: "'a list \<Rightarrow> 'a option" where
  "second xs = (case xs of _ # y # _ \<Rightarrow> Some y | _ \<Rightarrow> None)"

definition toString :: "jsstring option \<Rightarrow> jsstring" where
  "toString v = (case v of None \<Rightarrow> str ''undefined'' | Some s \<Rightarrow> s)"

text \<open>
  A Number is a double. \<open>nearestDouble m\<close> is the double that a positive integer \<open>m\<close>
  becomes: \<open>m\<close> itself when it fits in 53 bits, otherwise its leading 53 bits rounded to
  nearest, ties to even, and infinity (here \<open>None\<close>) from \<open>2^1024\<close> on.
\<close>

function bitLength :: "nat \<Rightarrow> nat" where
  "bitLength m = (if m = 0 then 0 else Suc (bitLength (m div 2)))"
  by pat_completeness auto
termination
  by (relation "measure (\<lambda>m. m)") auto

definition nearestDouble :: "nat \<Rightarrow> nat option" where
  "nearestDouble m =
     (if bitLength m \<le> 53 then Some m
      else (let e = bitLength m - 53;
                q = m div 2 ^ e;
                r = m mod 2 ^ e;
                q' = (if 2 ^ (e - 1) < r \<or> (r = 2 ^ (e - 1) \<and> odd q) then q + 1 else q)
            in if 1024 < bitLength (q' * 2 ^ e) then None else Some (q' * 2 ^ e)))"

text \<open>
  \<^verbatim>\<open>Number::toString\<close> prints a double \<open>x\<close> with the fewest significant digits that still
  denote a number whose nearest double is \<open>x\<close>. \<open>candidate x k\<close> looks for such a number
  with \<open>k\<close> significant digits among the two multiples of the power of ten that enclose
  \<open>x\<close>, the closer one first (the even one when both are as close);
  \<open>shortestDecimal x\<close> is the first one found for \<open>k = 1, 2, \<dots>\<close>. A number of up to 21
  digits is printed in full, a longer one in exponent form.
\<close>

definition candidate :: "nat \<Rightarrow> nat \<Rightarrow> nat option" where
  "candidate x k =
     (let p = length (digits10 x) - k;
          lo = (x div 10 ^ p) * 10 ^ p;
          hi = lo + 10 ^ p;
          nearer = (if x - lo < hi - x \<or> (x - lo = hi - x \<and> even (x div 10 ^ p)) then lo else hi);
          farther = (if nearer = lo then hi else lo)
      in if nearestDouble nearer = Some x then Some nearer
         else if nearestDouble farther = Some x then Some farther
         else None)"

definition shortestDecimal :: "nat \<Rightarrow> nat" where
  "shortestDecimal x =
     (case List.map_filter (candidate x) [1..<Suc (length (digits10 x))] of
        [] \<Rightarrow> x
      | v # _ \<Rightarrow> v)"

definition doubleToString :: "nat \<Rightarrow> jsstring" where
  "doubleToString x =
     (let ds = digits10 (shortestDecimal x);
          n = length ds
      in if n \<le> 21 then ds
         else (let s = rev (dropWhile (\<lambda>c. c = 48) (rev ds))
               in (if length s = 1 then s else hd s # 46 # tl s) @ [101, 43] @ digits10 (n - 1)))"

text \<open>
  The property key that the Number read by \<^verbatim>\<open>parseInt\<close> becomes in \<^verbatim>\<open>children[childIndex]\<close>:
  \<^verbatim>\<open>ToString\<close> of the nearest double. Both zeros print as \<^verbatim>\<open>0\<close>.
\<close>

definition propertyKey :: "int \<Rightarrow> jsstring" where
  "propertyKey i =
     (if i = 0 then [48]
      else (let magnitude = (case nearestDouble (nat \<bar>i\<bar>) of
                               None \<Rightarrow> str ''Infinity''
                             | Some x \<Rightarrow> doubleToString x)
            in if i < 0 then 45 # magnitude else magnitude))"

section \<open>The document\<close>

text \<open>
  The attributes of an element that the scripts read or write, or that the DOM consults
  on their behalf: the tag name, the id, the \<^verbatim>\<open>name\<close> attribute (of an element in the HTML
  namespace; an absent id or name is the empty string), the class list,
  \<^verbatim>\<open>data-edit-ready\<close>, \<^verbatim>\<open>data-is-editing\<close> and \<^verbatim>\<open>contenteditable\<close> (an absent attribute is
  \<open>None\<close>). Inline styles and event listeners are not part of the model.
\<close>

record attrs =
  tagName :: jsstring
  elemId :: jsstring
  nameAttr :: jsstring
  classList :: "jsstring list"
  editReady :: "jsstring option"
  isEditing :: "jsstring option"
  contentEditable :: "jsstring option"

datatype node =
    Text jsstring
  | Comment jsstring
  | Element attrs "node list"

fun isElement :: "node \<Rightarrow> bool" where
  "isElement (Element a cs) = True"
| "isElement n = False"

fun childNodes :: "node \<Rightarrow> node list" where
  "childNodes (Element a cs) = cs"
| "childNodes n = []"

fun attrsOf :: "node \<Rightarrow> attrs" where
  "attrsOf (Element a cs) = a"
| "attrsOf n = \<lparr>tagName = [], elemId = [], nameAttr = [], classList = [], editReady = None,
       isEditing = None, contentEditable = None\<rparr>"

text \<open>\<^verbatim>\<open>node.textContent\<close>: the text of all Text descendants, in document order.\<close>

fun textContent :: "node \<Rightarrow> jsstring" where
  "textContent (Text s) = s"
| "textContent (Comment s) = []"
| "textContent (Element a cs) = concat (map textContent cs)"

text \<open>
  The document is the tree of \<^verbatim>\<open>document.body\<close>. A node object is referred to by its
  position in that tree: the list of positions in \<^verbatim>\<open>childNodes\<close> that leads from the body
  to it, so \<open>[]\<close> is the body itself and \<open>butlast r\<close> is the parent of \<open>r\<close>. \<open>nodeAt\<close>
  follows a reference.
\<close>

type_synonym ref = "nat list"

fun nodeAt :: "node \<Rightarrow> ref \<Rightarrow> node option" where
  "nodeAt n [] = Some n"
| "nodeAt n (k # r) =
     (if k < length (childNodes n) then nodeAt (childNodes n ! k) r else None)"

text \<open>
  \<^verbatim>\<open>node.children\<close>: the element children in document order, each given by its position
  in \<^verbatim>\<open>childNodes\<close>.
\<close>

definition children :: "node \<Rightarrow> nat list" where
  "children n = filter (\<lambda>k. isElement (childNodes n ! k)) [0..<length (childNodes n)]"

text \<open>
  \<^verbatim>\<open>node.children\<close> is an \<^verbatim>\<open>HTMLCollection\<close>. \<^verbatim>\<open>collection.namedItem(key)\<close> is its first
  element whose id, or whose \<^verbatim>\<open>name\<close> attribute, is the key; the empty key finds nothing.
  \<^verbatim>\<open>collection[i]\<close> for a Number \<open>i\<close> is the element at that index when there is one and
  \<^verbatim>\<open>undefined\<close> for any other array index (\<open>0\<close> to \<open>2^32 - 2\<close>; a collection holds fewer than
  \<open>2^32\<close> elements, so an index below its length is an array index). A Number that is
  not an array index, such as \<open>-1\<close>, is looked up by name, under its property key.
\<close>

definition namedItem :: "node \<Rightarrow> jsstring \<Rightarrow> nat option" where
  "namedItem n key =
     (if key = [] then None
      else List.find (\<lambda>k. elemId (attrsOf (childNodes n ! k)) = key \<or>
                            nameAttr (attrsOf (childNodes n ! k)) = key) (children n))"

definition childrenAt :: "node \<Rightarrow> int \<Rightarrow> nat option" where
  "childrenAt n i =
     (if 0 \<le> i \<and> nat i < length (children n) then Some (children n ! nat i)
      else if 0 \<le> i \<and> i \<le> 4294967294 then None
      else namedItem n (propertyKey i))"

section \<open>KeyCodec: \<^verbatim>\<open>getKey\<close> and \<^verbatim>\<open>getElementByKey\<close>\<close>

text \<open>
  \<^verbatim>\<open>getKey\<close> (lines 249-258) walks from the element up to the body; at every level it
  looks the node up among its parent's element children and puts \<^verbatim>\<open>TAG:index\<close> in front
  of the path. A reference that does not resolve stands for a node outside the body's
  tree, where the walk has nothing to record. The properties \<^verbatim>\<open>parentNode\<close>, \<^verbatim>\<open>children\<close>
  and \<^verbatim>\<open>tagName\<close> of a node, and \<^verbatim>\<open>document.body\<close>, are read as the DOM defines them for
  every node. A \<^verbatim>\<open>form\<close> element and the document answer a property name with the element
  that carries it as id or \<^verbatim>\<open>name\<close>, if there is one, before their own properties; the
  model does not follow that, and the properties of the KeyCodec are stated for
  documents in which no element carries such a name (\<open>noShadowingNames\<close> below).
\<close>

function getKey_loop :: "node \<Rightarrow> ref \<Rightarrow> jsstring list \<Rightarrow> jsstring list" where
  "getKey_loop body nd path =
     (if nd = [] then path
      else (case (nodeAt body nd, nodeAt body (butlast nd)) of
              (Some n, Some parent) \<Rightarrow>
                (let index = indexOf (last nd) (children parent)
                 in getKey_loop body (butlast nd)
                      ((tagName (attrsOf n) @ COLON # numToString index) # path))
            | _ \<Rightarrow> path))"
  by pat_completeness auto
termination
  by (relation "measure (\<lambda>(body, nd, path). length nd)") auto

definition getKey :: "node \<Rightarrow> ref \<Rightarrow> jsstring" where
  "getKey body el = js_join GT (getKey_loop body el [])"

text \<open>
  \<^verbatim>\<open>getElementByKey\<close> (lines 280-294). The loop variable \<^verbatim>\<open>node\<close> is the reference
  reached so far together with the node found there. \<^verbatim>\<open>node.children[childIndex]\<close> is
  \<open>childrenAt\<close>: the element at that index, or for a Number that is not an array index
  the child of that id or name. The result \<open>None\<close> is \<^verbatim>\<open>null\<close>. The \<^verbatim>\<open>catch\<close> branch also
  returns \<^verbatim>\<open>null\<close>; no step of the loop throws on a string. As in \<^verbatim>\<open>getKey\<close>, \<^verbatim>\<open>children\<close>
  and \<^verbatim>\<open>document.body\<close> are read as the DOM defines them for every node.
\<close>

fun getElementByKey_loop :: "ref \<times> node \<Rightarrow> jsstring list \<Rightarrow> (ref \<times> node) option" where
  "getElementByKey_loop nd [] = Some nd"
| "getElementByKey_loop nd (p # parts) =
     (let index = second (js_split COLON p);
          childIndex = parseInt (toString index)
      in case childIndex of
           None \<Rightarrow> None
         | Some i \<Rightarrow>
             (case childrenAt (snd nd) i of
                None \<Rightarrow> None
              | Some k \<Rightarrow> getElementByKey_loop (fst nd @ [k], childNodes (snd nd) ! k) parts))"

definition getElementByKey :: "node \<Rightarrow> jsstring \<Rightarrow> (ref \<times> node) option" where
  "getElementByKey body key = getElementByKey_loop ([], body) (js_split GT key)"

section \<open>Notions for stating the properties of the KeyCodec\<close>

text \<open>
  A reference to an element: it resolves, and the node found is an element (the nodes
  above it are elements then, since only elements have children).
\<close>

definition elementAt :: "node \<Rightarrow> ref \<Rightarrow> node option" where
  "elementAt body r =
     (case nodeAt body r of None \<Rightarrow> None | Some n \<Rightarrow> if isElement n then Some n else None)"


text \<open>
  A tag name of a document has no \<^verbatim>\<open>>\<close>, no \<^verbatim>\<open>/\<close>, no NUL and no ASCII white space:
  neither the HTML parser nor \<^verbatim>\<open>createElement\<close> lets one in.
\<close>

definition validTagName :: "jsstring \<Rightarrow> bool" where
  "validTagName t =
     (t \<noteq> [] \<and> list_all (\<lambda>c. c \<noteq> GT \<and> c \<noteq> 47 \<and> c \<noteq> 0 \<and> c \<noteq> 9 \<and> c \<noteq> 10 \<and> c \<noteq> 12 \<and> c \<noteq> 13 \<and> c \<noteq> 32) t)"

text \<open>The index fields and the tag fields of a key, as the decoder splits it.\<close>

definition keyIndices :: "jsstring \<Rightarrow> int option list" where
  "keyIndices key =
     map (\<lambda>p. parseInt (toString (second (js_split COLON p)))) (js_split GT key)"

definition keyTags :: "jsstring \<Rightarrow> jsstring list" where
  "keyTags key = map (\<lambda>p. hd (js_split COLON p)) (js_split GT key)"

text \<open>
  Positional descent: from a node, the reference reached by taking at every level the
  element child with the given index; \<open>None\<close> when some level has no such child.
\<close>

fun descend :: "node \<Rightarrow> nat list \<Rightarrow> ref option" where
  "descend n [] = Some []"
| "descend n (i # is) =
     (if i < length (children n)
      then map_option ((#) (children n ! i)) (descend (childNodes n ! (children n ! i)) is)
      else None)"

text \<open>
  The descent that the decoder makes for a list of Numbers: at every level the child
  that \<^verbatim>\<open>children[i]\<close> denotes.
\<close>

fun walk :: "node \<Rightarrow> int list \<Rightarrow> ref option" where
  "walk n [] = Some []"
| "walk n (i # is) =
     (case childrenAt n i of
        None \<Rightarrow> None
      | Some k \<Rightarrow> map_option ((#) k) (walk (childNodes n ! k) is))"



fun namesAvoid :: "(jsstring \<Rightarrow> bool) \<Rightarrow> node \<Rightarrow> bool" where
  "namesAvoid P (Element a cs) =
     (\<not> P (elemId a) \<and> \<not> P (nameAttr a) \<and> list_all (namesAvoid P) cs)"
| "namesAvoid P n = True"




section \<open>Writing to the document\<close>

text \<open>
  \<open>modifyAt r f\<close> replaces the node at reference \<open>r\<close> by its image under \<open>f\<close> and leaves
  the tree as it is when \<open>r\<close> does not resolve. Assigning \<^verbatim>\<open>textContent\<close> of a Text node and
  setting attributes of an element are instances.
\<close>

fun modifyAt :: "ref \<Rightarrow> (node \<Rightarrow> node) \<Rightarrow> node \<Rightarrow> node" where
  "modifyAt [] f n = f n"
| "modifyAt (k # r) f n =
     (case n of
        Element a cs \<Rightarrow>
          if k < length cs then Element a (cs[k := modifyAt r f (cs ! k)]) else n
      | _ \<Rightarrow> n)"

definition textSetter :: "jsstring \<Rightarrow> node \<Rightarrow> node" where
  "textSetter t n = (case n of Text s \<Rightarrow> Text t | _ \<Rightarrow> n)"

definition setText :: "ref \<Rightarrow> jsstring \<Rightarrow> node \<Rightarrow> node" where
  "setText r t body = modifyAt r (textSetter t) body"

definition setAttrs :: "ref \<Rightarrow> (attrs \<Rightarrow> attrs) \<Rightarrow> node \<Rightarrow> node" where
  "setAttrs r f body = modifyAt r (\<lambda>n. case n of Element a cs \<Rightarrow> Element (f a) cs | _ \<Rightarrow> n) body"

section \<open>Reconciler: \<^verbatim>\<open>applyEdits\<close>\<close>

text \<open>
  The Text nodes below a node in document order, as references relative to it: what the
  \<^verbatim>\<open>TreeWalker\<close> with \<^verbatim>\<open>NodeFilter.SHOW_TEXT\<close> collects (lines 271-273). The walker never
  returns its root.
\<close>

fun textNodes :: "node \<Rightarrow> ref list" and textNodesIn :: "nat \<Rightarrow> node list \<Rightarrow> ref list" where
  "textNodes (Text s) = [[]]"
| "textNodes (Comment s) = []"
| "textNodes (Element a cs) = textNodesIn 0 cs"
| "textNodesIn k [] = []"
| "textNodesIn k (c # cs) = map ((#) k) (textNodes c) @ textNodesIn (Suc k) cs"

definition walkTextNodes :: "node \<Rightarrow> ref list" where
  "walkTextNodes root = (if isElement root then textNodes root else [])"

text \<open>
  One turn of the loop of \<^verbatim>\<open>applyEdits\<close> (lines 265-275) on the entry \<open>(key, newText)\<close>. The
  state of the loop is the document and the list of writes made so far; a write is the
  reference of the Text node assigned to and the text assigned.
\<close>

type_synonym domWrite = "ref \<times> jsstring"

definition applyEdit :: "jsstring \<times> jsstring \<Rightarrow> node \<times> domWrite list \<Rightarrow> node \<times> domWrite list" where
  "applyEdit entry st =
     (let key = fst entry; newText = snd entry; body = fst st
      in case getElementByKey body key of
           None \<Rightarrow> st
         | Some (r, el) \<Rightarrow>
             (let currentText = js_trim (textContent el);
                  isBeingEdited = (isEditing (attrsOf el) = Some (str ''true''))
              in if currentText \<noteq> newText \<and> \<not> isBeingEdited
                 then (case walkTextNodes el of
                         [] \<Rightarrow> st
                       | t # ts \<Rightarrow>
                           (setText (r @ t) newText body, snd st @ [(r @ t, newText)]))
                 else st))"

text \<open>
  The loop over \<^verbatim>\<open>Object.entries(edits)\<close>. An edit set is the list of its entries in
  that order, with distinct keys.
\<close>

type_synonym editset = "(jsstring \<times> jsstring) list"

definition applyEdits_loop :: "editset \<Rightarrow> node \<Rightarrow> node \<times> domWrite list" where
  "applyEdits_loop edits body = fold applyEdit edits (body, [])"

section \<open>The state of the extension\<close>

text \<open>
  The document and the location of the tab, the two entries of \<^verbatim>\<open>chrome.storage.local\<close>
  (the edit sets by page key and the \<^verbatim>\<open>editingEnabled\<close> flag), and the variables of the
  content script: \<^verbatim>\<open>editingEnabled\<close>, \<^verbatim>\<open>currentPageKey\<close>, \<^verbatim>\<open>editedElementsMap\<close> (a \<^verbatim>\<open>Set\<close> is
  the list of its members in insertion order), and the closure variables \<^verbatim>\<open>lastPath\<close> and
  \<^verbatim>\<open>applying\<close> of the two observers. \<open>location\<close> stands for
  \<^verbatim>\<open>location.origin + location.pathname\<close>.

  The callbacks of the two observers are asynchronous functions that await
  \<^verbatim>\<open>applyEdits\<close>, \<^verbatim>\<open>enableEditing\<close> and \<^verbatim>\<open>preventActionsOnClass\<close> in turn (lines 377-384 and
  391-403). A call that has started and not finished is a task: the kind of callback
  and the call it is suspended in. \<open>pending\<close> is the list of these tasks.
\<close>

datatype pc = AtApplyEdits | AtEnableEditing | AtPreventActions

datatype task = ObserverPass pc | PathPass pc

record state =
  docBody :: node
  location :: jsstring
  storedEdits :: "jsstring \<Rightarrow> editset option"
  storedEnabled :: "bool option"
  editingEnabled :: bool
  currentPageKey :: jsstring
  editedElementsMap :: "jsstring \<Rightarrow> jsstring list option"
  lastPath :: jsstring
  applying :: bool
  pending :: "task list"

definition PREVENTED_CLASSES :: "jsstring list" where
  "PREVENTED_CLASSES = [str ''_e9h'']"

text \<open>\<^verbatim>\<open>getEditedElementsForPage\<close> (lines 194-198) creates the set when it is absent.\<close>

definition getEditedElementsForPage :: "state \<Rightarrow> jsstring list \<times> state" where
  "getEditedElementsForPage s =
     (case editedElementsMap s (currentPageKey s) of
        None \<Rightarrow> ([], s\<lparr>editedElementsMap := (editedElementsMap s)(currentPageKey s \<mapsto> [])\<rparr>)
      | Some ks \<Rightarrow> (ks, s))"

text \<open>\<^verbatim>\<open>set.add(key)\<close> and \<^verbatim>\<open>set.clear()\<close> on the set of the current page.\<close>

definition editedSet_add :: "jsstring \<Rightarrow> state \<Rightarrow> state" where
  "editedSet_add key s =
     (let (ks, s') = getEditedElementsForPage s
      in s'\<lparr>editedElementsMap := (editedElementsMap s')
              (currentPageKey s' \<mapsto> (if key \<in> set ks then ks else ks @ [key]))\<rparr>)"

definition editedSet_clear :: "state \<Rightarrow> state" where
  "editedSet_clear s =
     (let (ks, s') = getEditedElementsForPage s
      in s'\<lparr>editedElementsMap := (editedElementsMap s')(currentPageKey s' \<mapsto> [])\<rparr>)"

text \<open>\<^verbatim>\<open>isEditingEnabled\<close> (lines 201-204) and \<^verbatim>\<open>hasPreventedClass\<close> (lines 207-210).\<close>

definition isEditingEnabled :: "state \<Rightarrow> bool" where
  "isEditingEnabled s = (storedEnabled s \<noteq> Some False)"

definition hasPreventedClass :: "state \<Rightarrow> attrs \<Rightarrow> bool" where
  "hasPreventedClass s a =
     (if isEditingEnabled s then False
      else list_ex (\<lambda>cls. cls \<in> set (classList a)) PREVENTED_CLASSES)"

text \<open>
  \<^verbatim>\<open>getSavedEdits\<close> of the content script (lines 235-238) and \<^verbatim>\<open>saveEdit\<close> (lines 240-246).
  Assigning \<^verbatim>\<open>edits[key]\<close> replaces the value of a key in place and appends a new key.
\<close>

definition getSavedEdits :: "state \<Rightarrow> editset" where
  "getSavedEdits s = (case storedEdits s (currentPageKey s) of None \<Rightarrow> [] | Some e \<Rightarrow> e)"

definition saveEdit :: "ref \<Rightarrow> state \<Rightarrow> state" where
  "saveEdit el s =
     (case nodeAt (docBody s) el of
        None \<Rightarrow> s
      | Some n \<Rightarrow>
          (let key = getKey (docBody s) el;
               text = js_trim (textContent n);
               edits = AList.update key text (getSavedEdits s)
           in s\<lparr>storedEdits := (storedEdits s)(currentPageKey s \<mapsto> edits)\<rparr>))"

text \<open>\<^verbatim>\<open>applyEdits\<close> (lines 261-277).\<close>

definition applyEdits :: "state \<Rightarrow> state" where
  "applyEdits s =
     (let edits = getSavedEdits s
      in if edits = [] then s
         else s\<lparr>docBody := fst (applyEdits_loop edits (docBody s))\<rparr>)"

section \<open>Editability Manager: \<^verbatim>\<open>enableEditing\<close> and the disable path\<close>

text \<open>
  The body of the callback of \<^verbatim>\<open>enableEditing\<close> (lines 303-312) on one selected element,
  as the new attributes of that element. The listeners it attaches are the handlers
  \<open>onFocus\<close>, \<open>onBlur\<close> and \<open>onInput\<close> below.
\<close>

definition initElement :: "state \<Rightarrow> node \<Rightarrow> attrs" where
  "initElement s el =
     (let a = attrsOf el
      in if hasPreventedClass s a then a
         else if truthy (editReady a) \<or> js_trim (textContent el) = [] then a
         else if children el \<noteq> [] then a
         else if elemId a = str ''editableSaveBtn'' \<or> startsWith (elemId a) (str ''editable'') then a
         else a\<lparr>editReady := Some (str ''true''), contentEditable := Some (str ''true'')\<rparr>)"

text \<open>
  \<^verbatim>\<open>document.querySelectorAll("div._1b33 span").forEach(f)\<close>: \<open>f\<close> on every \<^verbatim>\<open>span\<close> element
  that has an ancestor \<^verbatim>\<open>div\<close> of class \<^verbatim>\<open>_1b33\<close>. The tag name of an HTML element is in
  upper case. The callbacks are asynchronous, but each reads and writes its own element
  only, so they are applied in one traversal.
\<close>

definition isDiv1b33 :: "attrs \<Rightarrow> bool" where
  "isDiv1b33 a = (tagName a = str ''DIV'' \<and> str ''_1b33'' \<in> set (classList a))"

fun forEachSelected :: "(node \<Rightarrow> attrs) \<Rightarrow> bool \<Rightarrow> node \<Rightarrow> node" where
  "forEachSelected f inside (Element a cs) =
     Element (if inside \<and> tagName a = str ''SPAN'' then f (Element a cs) else a)
             (map (forEachSelected f (inside \<or> isDiv1b33 a)) cs)"
| "forEachSelected f inside n = n"

text \<open>\<^verbatim>\<open>enableEditing\<close> (lines 297-341).\<close>

definition enableEditing :: "state \<Rightarrow> state" where
  "enableEditing s =
     (if \<not> isEditingEnabled s then s
      else s\<lparr>docBody := forEachSelected (initElement s) False (docBody s)\<rparr>)"

text \<open>
  The disable path (lines 363-366): every element whose \<^verbatim>\<open>contenteditable\<close> attribute is
  \<^verbatim>\<open>"true"\<close> gets \<^verbatim>\<open>contentEditable = "false"\<close> and \<^verbatim>\<open>dataset.editReady = "false"\<close>.
\<close>

definition revoke :: "attrs \<Rightarrow> attrs" where
  "revoke a =
     (if contentEditable a = Some (str ''true'')
      then a\<lparr>contentEditable := Some (str ''false''), editReady := Some (str ''false'')\<rparr>
      else a)"

fun mapElements :: "(attrs \<Rightarrow> attrs) \<Rightarrow> node \<Rightarrow> node" where
  "mapElements f (Element a cs) = Element (f a) (map (mapElements f) cs)"
| "mapElements f n = n"

definition disableEditing :: "state \<Rightarrow> state" where
  "disableEditing s = s\<lparr>docBody := mapElements revoke (docBody s)\<rparr>"

text \<open>
  The listeners of an initialised element (lines 314-322): focus, blur and input. An
  event on a reference that is not an element of the document does nothing.
\<close>

definition onFocus :: "ref \<Rightarrow> state \<Rightarrow> state" where
  "onFocus el s =
     s\<lparr>docBody := setAttrs el (\<lambda>a. a\<lparr>isEditing := Some (str ''true'')\<rparr>) (docBody s)\<rparr>"

definition onBlur :: "ref \<Rightarrow> state \<Rightarrow> state" where
  "onBlur el s =
     s\<lparr>docBody := setAttrs el (\<lambda>a. a\<lparr>isEditing := Some (str ''false'')\<rparr>) (docBody s)\<rparr>"

definition onInput :: "ref \<Rightarrow> state \<Rightarrow> state" where
  "onInput el s =
     (case elementAt (docBody s) el of
        None \<Rightarrow> s
      | Some n \<Rightarrow>
          (let s1 = s\<lparr>docBody := setAttrs el (\<lambda>a. a\<lparr>isEditing := Some (str ''true'')\<rparr>) (docBody s)\<rparr>;
               s2 = editedSet_add (getKey (docBody s1) el) s1
           in saveEdit el s2))"

section \<open>Boundary protocol: the message listener\<close>

datatype request =
    GetEditedElements
  | ClearEditedElements
  | SetEditingState bool

datatype response =
    EditedElements editset
  | Success

text \<open>
  The \<^verbatim>\<open>getEditedElements\<close> branch (lines 345-353): for every tracked key that resolves,
  the key and the trimmed text of its element.
\<close>

definition collectEdited :: "node \<Rightarrow> jsstring list \<Rightarrow> editset" where
  "collectEdited body ks =
     fold (\<lambda>key editedData.
             case getElementByKey body key of
               None \<Rightarrow> editedData
             | Some (r, el) \<Rightarrow> AList.update key (js_trim (textContent el)) editedData)
          ks []"

text \<open>
  The listener (lines 344-372). For \<^verbatim>\<open>setEditingState\<close> the enable path,
  \<^verbatim>\<open>await enableEditing()\<close>, is taken as one step up to the response, and the disable
  path runs at once.
\<close>

fun onMessage :: "request \<Rightarrow> state \<Rightarrow> response \<times> state" where
  "onMessage GetEditedElements s =
     (let (ks, s') = getEditedElementsForPage s
      in (EditedElements (collectEdited (docBody s') ks), s'))"
| "onMessage ClearEditedElements s = (Success, editedSet_clear s)"
| "onMessage (SetEditingState enabled) s =
     (let s' = s\<lparr>editingEnabled := enabled\<rparr>
      in (Success, if enabled then enableEditing s' else disableEditing s'))"

section \<open>The popup\<close>

text \<open>
  The popup computes its page key from the URL of the tab (lines 10-14), here \<open>location\<close>.
  \<^verbatim>\<open>getSavedEdits\<close> and \<^verbatim>\<open>saveEdits\<close> of the popup (lines 17-27).
\<close>

definition popup_getSavedEdits :: "state \<Rightarrow> editset" where
  "popup_getSavedEdits s = (case storedEdits s (location s) of None \<Rightarrow> [] | Some e \<Rightarrow> e)"

definition popup_saveEdits :: "editset \<Rightarrow> state \<Rightarrow> state" where
  "popup_saveEdits edits s = s\<lparr>storedEdits := (storedEdits s)(location s \<mapsto> edits)\<rparr>"

text \<open>
  The loop of the save handler (lines 84-96): starting from a copy of the previous edit
  set, every entry of the response whose text is truthy and has a truthy trim is
  assigned its trimmed text.
\<close>

definition mergeEdited :: "editset \<Rightarrow> editset \<Rightarrow> editset" where
  "mergeEdited previous editedElements =
     fold (\<lambda>(key, currentText) allEdits.
             if currentText \<noteq> [] \<and> js_trim currentText \<noteq> []
             then AList.update key (js_trim currentText) allEdits
             else allEdits)
          editedElements previous"

text \<open>The click handler of the save button (lines 70-123), with the content script answering.\<close>

definition saveClick :: "state \<Rightarrow> state" where
  "saveClick s =
     (case onMessage GetEditedElements s of
        (EditedElements editedElements, s1) \<Rightarrow>
          (let previous = popup_getSavedEdits s1;
               allEdits = mergeEdited previous editedElements;
               s2 = popup_saveEdits allEdits s1
           in snd (onMessage ClearEditedElements s2))
      | (Success, s1) \<Rightarrow> s1)"

text \<open>The click handler of the clear button (lines 149-176).\<close>

definition clearClick :: "state \<Rightarrow> state" where
  "clearClick s =
     snd (onMessage ClearEditedElements (s\<lparr>storedEdits := (storedEdits s)(location s := None)\<rparr>))"

text \<open>The click handler of the toggle button (lines 126-146).\<close>

definition toggleClick :: "state \<Rightarrow> state" where
  "toggleClick s =
     (let newState = \<not> isEditingEnabled s;
          s1 = s\<lparr>storedEnabled := Some newState\<rparr>
      in snd (onMessage (SetEditingState newState) s1))"

section \<open>Mutation Watcher and Navigation Watcher\<close>

text \<open>
  The callback of \<^verbatim>\<open>startObservers\<close> (lines 377-384) up to its first \<^verbatim>\<open>await\<close>: with the
  guard set the batch is dropped, otherwise the guard is set and a pass starts.
\<close>

definition observerCallback :: "state \<Rightarrow> state" where
  "observerCallback s =
     (if applying s then s
      else s\<lparr>applying := True, pending := pending s @ [ObserverPass AtApplyEdits]\<rparr>)"

text \<open>
  The callback of \<^verbatim>\<open>startPathObserver\<close> (lines 391-403) up to its first \<^verbatim>\<open>await\<close>.
\<close>

definition pathCallback :: "state \<Rightarrow> state" where
  "pathCallback s =
     (let newPath = location s
      in if newPath \<noteq> lastPath s
         then (let s1 = s\<lparr>lastPath := newPath, currentPageKey := newPath\<rparr>;
                   s2 = editedSet_clear s1
               in s2\<lparr>pending := pending s2 @ [PathPass AtApplyEdits]\<rparr>)
         else s)"

text \<open>
  A task continues from the call it is suspended in to its next \<^verbatim>\<open>await\<close>, or to its end:
  the result is what is left of the task and the new state. Each awaited call is taken
  as one step, the storage read of \<^verbatim>\<open>applyEdits\<close> included.
  \<^verbatim>\<open>preventActionsOnClass\<close> (lines 213-232) only adds listeners and styles, which the
  model does not hold. The pass of the Mutation Watcher clears the guard at its end.
\<close>

fun continue :: "task \<Rightarrow> state \<Rightarrow> task option \<times> state" where
  "continue (ObserverPass AtApplyEdits) s = (Some (ObserverPass AtEnableEditing), applyEdits s)"
| "continue (ObserverPass AtEnableEditing) s = (Some (ObserverPass AtPreventActions), enableEditing s)"
| "continue (ObserverPass AtPreventActions) s = (None, s\<lparr>applying := False\<rparr>)"
| "continue (PathPass AtApplyEdits) s = (Some (PathPass AtEnableEditing), applyEdits s)"
| "continue (PathPass AtEnableEditing) s = (Some (PathPass AtPreventActions), enableEditing s)"
| "continue (PathPass AtPreventActions) s = (None, s)"

definition resume :: "nat \<Rightarrow> state \<Rightarrow> state" where
  "resume n s =
     (if n < length (pending s)
      then (case continue (pending s ! n) s of
              (Some t, s') \<Rightarrow> s'\<lparr>pending := (pending s')[n := t]\<rparr>
            | (None, s') \<Rightarrow> s'\<lparr>pending := take n (pending s') @ drop (Suc n) (pending s')\<rparr>)
      else s)"

text \<open>
  What can happen to the extension: the host page changes the document or the
  location; a batch of mutation records is delivered to both observers (the Mutation
  Watcher was created first); a suspended task continues; an initialised element
  receives focus, blur or input; the popup sends a message; a button of the popup is
  clicked.
\<close>

datatype event =
    HostSetBody node
  | HostSetLocation jsstring
  | MutationBatch
  | Resume nat
  | Focus ref
  | Blur ref
  | Input ref
  | Message request
  | SaveClick
  | ClearClick
  | ToggleClick

fun step :: "event \<Rightarrow> state \<Rightarrow> state" where
  "step (HostSetBody b) s = s\<lparr>docBody := b\<rparr>"
| "step (HostSetLocation l) s = s\<lparr>location := l\<rparr>"
| "step MutationBatch s = pathCallback (observerCallback s)"
| "step (Resume n) s = resume n s"
| "step (Focus el) s = onFocus el s"
| "step (Blur el) s = onBlur el s"
| "step (Input el) s = onInput el s"
| "step (Message rq) s = snd (onMessage rq s)"
| "step SaveClick s = saveClick s"
| "step ClearClick s = clearClick s"
| "step ToggleClick s = toggleClick s"

definition run :: "event list \<Rightarrow> state \<Rightarrow> state" where
  "run evs s = fold step evs s"

text \<open>
  The state in which the observers start (lines 472-481): the script has set
  \<^verbatim>\<open>currentPageKey\<close> from the location, cleared the set of the page, and run
  \<^verbatim>\<open>enableEditing\<close> and \<^verbatim>\<open>applyEdits\<close>.
\<close>

definition startState :: "node \<Rightarrow> jsstring \<Rightarrow> (jsstring \<Rightarrow> editset option) \<Rightarrow> bool option \<Rightarrow> state" where
  "startState b l edits enabled =
     applyEdits (enableEditing (editedSet_clear
       \<lparr>docBody = b, location = l, storedEdits = edits, storedEnabled = enabled,
        editingEnabled = True, currentPageKey = l, editedElementsMap = Map.empty,
        lastPath = l, applying = False, pending = []\<rparr>))"

section \<open>Notions for stating the properties of the watchers\<close>

text \<open>The passes of the Mutation Watcher that are in flight.\<close>

fun isObserverPass :: "task \<Rightarrow> bool" where
  "isObserverPass (ObserverPass p) = True"
| "isObserverPass (PathPass p) = False"

definition passesInFlight :: "state \<Rightarrow> nat" where
  "passesInFlight s = length (filter isObserverPass (pending s))"

text \<open>
  Along a run, the number of passes of the Mutation Watcher that start (a batch arrives
  with the guard clear) and the number that end (a pass continues from its last
  \<^verbatim>\<open>await\<close>).
\<close>

fun passesStarted :: "event list \<Rightarrow> state \<Rightarrow> nat" where
  "passesStarted [] s = 0"
| "passesStarted (e # evs) s =
     (if e = MutationBatch \<and> \<not> applying s then 1 else 0) + passesStarted evs (step e s)"

fun endsPass :: "event \<Rightarrow> state \<Rightarrow> bool" where
  "endsPass (Resume n) s = (n < length (pending s) \<and> pending s ! n = ObserverPass AtPreventActions)"
| "endsPass e s = False"

fun passesEnded :: "event list \<Rightarrow> state \<Rightarrow> nat" where
  "passesEnded [] s = 0"
| "passesEnded (e # evs) s = (if endsPass e s then 1 else 0) + passesEnded evs (step e s)"

fun isInput :: "event \<Rightarrow> bool" where
  "isInput (Input el) = True"
| "isInput e = False"

text \<open>Every stored text is its own trim.\<close>

definition trimmedStore :: "state \<Rightarrow> bool" where
  "trimmedStore s =
     (\<forall>pageKey edits. storedEdits s pageKey = Some edits \<longrightarrow>
        (\<forall>(key, text) \<in> set edits. js_trim text = text))"

section \<open>Notions for stating the properties of the Reconciler\<close>

text \<open>
  The shape of a document: the tree with the content of every Text node erased. Two
  documents of the same shape have the same elements with the same attributes, the
  same comments, and Text nodes at the same places.
\<close>

fun shape :: "node \<Rightarrow> node" where
  "shape (Text s) = Text []"
| "shape (Comment s) = Comment s"
| "shape (Element a cs) = Element a (map shape cs)"

text \<open>The index fields of a key as strings, and the strings that are decimal numerals.\<close>

definition keyIndexFields :: "jsstring \<Rightarrow> jsstring option list" where
  "keyIndexFields key = map (\<lambda>p. second (js_split COLON p)) (js_split GT key)"

definition isNumeral :: "jsstring \<Rightarrow> bool" where
  "isNumeral s = (s \<noteq> [] \<and> list_all isDigit s)"

text \<open>
  An entry is settled in a document when the loop of \<^verbatim>\<open>applyEdits\<close> would pass it by:
  its key does not resolve, or the trimmed text of its element is the stored text, or
  the element is being edited, or the element holds no Text node.
\<close>

definition settled :: "node \<Rightarrow> jsstring \<times> jsstring \<Rightarrow> bool" where
  "settled body entry =
     (case getElementByKey body (fst entry) of
        None \<Rightarrow> True
      | Some (r, el) \<Rightarrow>
          js_trim (textContent el) = snd entry \<or>
          isEditing (attrsOf el) = Some (str ''true'') \<or>
          walkTextNodes el = [])"

text \<open>
  The reference a key resolves to. Two keys are apart when they do not both resolve,
  or resolve to two elements neither of which is the other or lies inside the other.
  The keys of a list are separate when every two of them are apart.
\<close>

definition refOf :: "node \<Rightarrow> jsstring \<Rightarrow> ref option" where
  "refOf body key = map_option fst (getElementByKey body key)"

definition apart :: "ref option \<Rightarrow> ref option \<Rightarrow> bool" where
  "apart a b =
     (case (a, b) of
        (Some r, Some r') \<Rightarrow> \<not> prefix r r' \<and> \<not> prefix r' r
      | _ \<Rightarrow> True)"

fun separate :: "node \<Rightarrow> jsstring list \<Rightarrow> bool" where
  "separate body [] = True"
| "separate body (k # ks) =
     (list_all (\<lambda>k'. apart (refOf body k) (refOf body k')) ks \<and> separate body ks)"

text \<open>Every element that a key of the edit set resolves to holds at most one Text node.\<close>

definition singleText :: "node \<Rightarrow> editset \<Rightarrow> bool" where
  "singleText body edits =
     list_all (\<lambda>(key, text).
        case getElementByKey body key of
          None \<Rightarrow> True
        | Some (r, el) \<Rightarrow> length (walkTextNodes el) \<le> 1) edits"

section \<open>Notions for stating the properties of the watchers, continued\<close>

text \<open>The set of tracked keys of the current page is empty (or not yet created).\<close>

definition noTrackedEdits :: "state \<Rightarrow> bool" where
  "noTrackedEdits s =
     (case editedElementsMap s (currentPageKey s) of None \<Rightarrow> True | Some ks \<Rightarrow> ks = [])"

text \<open>The guard is set exactly when one pass of the Mutation Watcher is in flight.\<close>

definition guardAgrees :: "state \<Rightarrow> bool" where
  "guardAgrees s = (passesInFlight s = (if applying s then 1 else 0))"

text \<open>
  The processed marker and the \<^verbatim>\<open>contenteditable\<close> attribute of the element at a reference.
\<close>

definition editability :: "state \<Rightarrow> ref \<Rightarrow> (jsstring option \<times> jsstring option) option" where
  "editability s el =
     map_option (\<lambda>n. (editReady (attrsOf n), contentEditable (attrsOf n)))
       (elementAt (docBody s) el)"

section \<open>Example documents\<close>

definition mkAttrs :: "jsstring \<Rightarrow> attrs" where
  "mkAttrs tag = \<lparr>tagName = tag, elemId = [], nameAttr = [], classList = [], editReady = None,
       isEditing = None, contentEditable = None\<rparr>"

text \<open>
  \<^verbatim>\<open><body><div class="_1b33"> <span> Hello World </span></div></body>\<close>
\<close>

definition exSpan :: node where
  "exSpan = Element (mkAttrs (str ''SPAN'')) [Text (str '' Hello World '')]"

definition exDiv :: node where
  "exDiv = Element ((mkAttrs (str ''DIV''))\<lparr>classList := [str ''_1b33'']\<rparr>)
     [Text (str '' ''), exSpan]"

definition exDoc :: node where
  "exDoc = Element (mkAttrs (str ''BODY'')) [exDiv]"

text \<open>
  \<^verbatim>\<open><body><fb:like><span> Hello World </span></fb:like></body>\<close>: the HTML parser accepts a
  colon in a tag name.
\<close>

definition exLike :: node where
  "exLike = Element (mkAttrs (str ''FB:LIKE'')) [exSpan]"

definition exLikeDoc :: node where
  "exLikeDoc = Element (mkAttrs (str ''BODY'')) [exLike]"

text \<open>The first example document with the \<^verbatim>\<open>span\<close> in the middle of an edit.\<close>

definition exEditingDoc :: node where
  "exEditingDoc =
     Element (mkAttrs (str ''BODY''))
       [Element ((mkAttrs (str ''DIV''))\<lparr>classList := [str ''_1b33'']\<rparr>)
          [Text (str '' ''),
           Element ((mkAttrs (str ''SPAN''))\<lparr>isEditing := Some (str ''true'')\<rparr>)
             [Text (str '' Hello World '')]]]"

text \<open>
  \<^verbatim>\<open><body><span>Hello<b> World</b></span></body>\<close>: a \<^verbatim>\<open>span\<close> that holds two Text nodes.
\<close>

definition exMarkupDoc :: node where
  "exMarkupDoc =
     Element (mkAttrs (str ''BODY''))
       [Element (mkAttrs (str ''SPAN''))
          [Text (str ''Hello''), Element (mkAttrs (str ''B'')) [Text (str '' World'')]]]"

text \<open>
  \<^verbatim>\<open><body><div><span data-is-editing="true">abc</span></div></body>\<close>: an element in the
  middle of an edit, inside another element.
\<close>

definition exNestedSpan :: node where
  "exNestedSpan =
     Element ((mkAttrs (str ''SPAN''))\<lparr>isEditing := Some (str ''true'')\<rparr>) [Text (str ''abc'')]"

definition exNestedDoc :: node where
  "exNestedDoc =
     Element (mkAttrs (str ''BODY'')) [Element (mkAttrs (str ''DIV'')) [exNestedSpan]]"



text \<open>\<^verbatim>\<open><body><span>one</span><span>two</span></body>\<close>\<close>

definition exTwoDoc :: node where
  "exTwoDoc =
     Element (mkAttrs (str ''BODY''))
       [Element (mkAttrs (str ''SPAN'')) [Text (str ''one'')],
        Element (mkAttrs (str ''SPAN'')) [Text (str ''two'')]]"

text \<open>The extension started on the first example document, with nothing stored.\<close>

definition pageA :: jsstring where
  "pageA = str ''https://example.com/a''"

definition pageB :: jsstring where
  "pageB = str ''https://example.com/b''"

definition exState :: state where
  "exState = startState exDoc pageA Map.empty None"

text \<open>
  A state in which the key of the \<^verbatim>\<open>span\<close> is tracked, and the store holds an older text
  for it and a text for another key.
\<close>

definition exSaveState :: state where
  "exSaveState =
     \<lparr>docBody = exDoc, location = pageA,
      storedEdits = [pageA \<mapsto> [(str ''DIV:0>SPAN:0'', str ''old''), (str ''DIV:0>SPAN:7'', str ''keep'')]],
      storedEnabled = None, editingEnabled = True, currentPageKey = pageA,
      editedElementsMap = [pageA \<mapsto> [str ''DIV:0>SPAN:0'']],
      lastPath = pageA, applying = False, pending = []\<rparr>"

chapter \<open>Properties\<close>

section \<open>Strings\<close>

declare digits10.simps [simp del]

declare getKey_loop.simps [simp del]

lemma js_split_nonempty: "js_split sep s \<noteq> []"
  by (cases s) auto















text \<open>The printing of Numbers.\<close>

declare bitLength.simps [simp del]


















section \<open>KeyCodec\<close>




lemma children_mem: "k \<in> set (children n) \<longleftrightarrow> k < length (childNodes n) \<and> isElement (childNodes n ! k)"
  by (auto simp: children_def)

lemma descend_nodeAt: "descend n is = Some r \<Longrightarrow> \<exists>e. nodeAt n r = Some e"
proof (induction "is" arbitrary: n r)
  case Nil
  then show ?case by simp
next
  case (Cons i "is")
  from Cons.prems have i: "i < length (children n)" by (simp split: if_splits)
  then have "children n ! i \<in> set (children n)" by simp
  then have k: "children n ! i < length (childNodes n)" by (simp add: children_mem)
  from Cons.prems i obtain r' where r': "descend (childNodes n ! (children n ! i)) is = Some r'"
    and r: "r = children n ! i # r'" by auto
  from Cons.IH [OF r'] k r show ?case by simp
qed

lemma namedItem_mem: "namedItem n key = Some k \<Longrightarrow> k \<in> set (children n)"
  by (auto simp: namedItem_def find_Some_iff split: if_splits)

lemma childrenAt_mem: "childrenAt n i = Some k \<Longrightarrow> k \<in> set (children n)"
  by (auto simp: childrenAt_def dest: namedItem_mem split: if_splits)

lemma childrenAt_index:
  "0 \<le> i \<Longrightarrow> nat i < length (children n) \<Longrightarrow> childrenAt n i = Some (children n ! nat i)"
  by (simp add: childrenAt_def)

lemma walk_nodeAt: "walk n is = Some r \<Longrightarrow> \<exists>e. nodeAt n r = Some e"
proof (induction "is" arbitrary: n r)
  case Nil
  then show ?case by simp
next
  case (Cons i "is")
  from Cons.prems obtain k r' where k: "childrenAt n i = Some k"
    and r': "walk (childNodes n ! k) is = Some r'" and r: "r = k # r'"
    by (auto split: option.splits)
  from childrenAt_mem [OF k] have "k < length (childNodes n)" by (simp add: children_mem)
  with Cons.IH [OF r'] r show ?case by simp
qed

lemma getElementByKey_loop_walk:
  "getElementByKey_loop (r0, n) parts = Some (r', e) \<longleftrightarrow>
   (\<exists>is r. map (\<lambda>p. parseInt (toString (second (js_split COLON p)))) parts = map Some is \<and>
        walk n is = Some r \<and> r' = r0 @ r \<and> nodeAt n r = Some e)"
proof (induction parts arbitrary: r0 n)
  case Nil
  then show ?case by auto
next
  case (Cons p parts)
  let ?ix = "\<lambda>p. parseInt (toString (second (js_split COLON p)))"
  show ?case
  proof (cases "?ix p")
    case None
    then show ?thesis by (auto simp: Let_def)
  next
    case (Some i)
    show ?thesis
    proof (cases "childrenAt n i")
      case None
      then show ?thesis using Some
        by (auto simp: Let_def Cons_eq_map_conv)
    next
      case k: (Some k)
      from childrenAt_mem [OF k] have kl: "k < length (childNodes n)" by (simp add: children_mem)
      have step: "getElementByKey_loop (r0, n) (p # parts)
            = getElementByKey_loop (r0 @ [k], childNodes n ! k) parts"
        using Some k by (simp add: Let_def)
      show ?thesis
      proof
        assume "getElementByKey_loop (r0, n) (p # parts) = Some (r', e)"
        then obtain js r where js: "map ?ix parts = map Some js"
          and d: "walk (childNodes n ! k) js = Some r"
          and r': "r' = (r0 @ [k]) @ r" and e: "nodeAt (childNodes n ! k) r = Some e"
          unfolding step Cons.IH by blast
        have "map ?ix (p # parts) = map Some (i # js)"
          using js Some by simp
        moreover have "walk n (i # js) = Some (k # r)" using d k by simp
        moreover have "r' = r0 @ (k # r)" using r' by simp
        moreover have "nodeAt n (k # r) = Some e" using e kl by simp
        ultimately show "\<exists>is r. map ?ix (p # parts) = map Some is \<and>
            walk n is = Some r \<and> r' = r0 @ r \<and> nodeAt n r = Some e" by blast
      next
        assume "\<exists>is r. map ?ix (p # parts) = map Some is \<and>
            walk n is = Some r \<and> r' = r0 @ r \<and> nodeAt n r = Some e"
        then obtain js r where js: "map ?ix (p # parts) = map Some js"
          and d: "walk n js = Some r" and r': "r' = r0 @ r" and e: "nodeAt n r = Some e"
          by blast
        from js Some obtain js' where js': "js = i # js'"
          and rest: "map ?ix parts = map Some js'"
          by (cases js) auto
        from d js' k obtain r2 where d2: "walk (childNodes n ! k) js' = Some r2"
          and r: "r = k # r2" by auto
        have "nodeAt (childNodes n ! k) r2 = Some e" using e r kl by simp
        with rest d2 r' r have "getElementByKey_loop (r0 @ [k], childNodes n ! k) parts = Some (r', e)"
          unfolding Cons.IH by auto
        then show "getElementByKey_loop (r0, n) (p # parts) = Some (r', e)"
          unfolding step .
      qed
    qed
  qed
qed

lemma getElementByKey_walk:
  "getElementByKey body key = Some (r, e) \<longleftrightarrow>
   (\<exists>is. keyIndices key = map Some is \<and> walk body is = Some r \<and> nodeAt body r = Some e)"
  unfolding getElementByKey_def keyIndices_def
  by (simp add: getElementByKey_loop_walk)

lemma getElementByKey_nodeAt: "getElementByKey b key = Some (r, el) \<Longrightarrow> nodeAt b r = Some el"
  unfolding getElementByKey_walk by blast


lemma namesAvoid_child:
  "namesAvoid P n \<Longrightarrow> k < length (childNodes n) \<Longrightarrow> namesAvoid P (childNodes n ! k)"
  by (cases n) (auto simp: list_all_length)

lemma namesAvoid_nodeAt: "namesAvoid P n \<Longrightarrow> nodeAt n r = Some m \<Longrightarrow> namesAvoid P m"
proof (induction r arbitrary: n)
  case Nil
  then show ?case by simp
next
  case (Cons k r)
  from Cons.prems(2) have k: "k < length (childNodes n)"
    and sub: "nodeAt (childNodes n ! k) r = Some m" by (auto split: if_splits)
  from Cons.IH [OF namesAvoid_child [OF Cons.prems(1) k] sub] show ?case .
qed













lemmas ex_defs = exDoc_def exDiv_def exSpan_def exLikeDoc_def exLike_def mkAttrs_def str_def

text \<open>Rules that evaluate the codec on a concrete document and key.\<close>

lemma isWhiteSpace_numeral:
  "isWhiteSpace (numeral n) =
     (numeral n \<in> {9, 10, 11, 12, 13, 32, 160, 5760, 8232, 8233, 8239, 8287, 12288, 65279 :: nat} \<or>
      (8192 \<le> (numeral n :: nat) \<and> (numeral n :: nat) \<le> 8202))"
  unfolding isWhiteSpace_def by auto

lemma parseInt_eval:
  "parseInt [] = None"
  "parseInt (c # cs) =
     (if isWhiteSpace c then parseInt cs
      else if c = 45 then
        (case takeWhile isDigit cs of
           [] \<Rightarrow> None
         | Z \<Rightarrow> Some (- int (foldl (\<lambda>a c. 10 * a + (c - 48)) 0 Z)))
      else if c = 43 then
        (case takeWhile isDigit cs of
           [] \<Rightarrow> None
         | Z \<Rightarrow> Some (int (foldl (\<lambda>a c. 10 * a + (c - 48)) 0 Z)))
      else
        (case takeWhile isDigit (c # cs) of
           [] \<Rightarrow> None
         | Z \<Rightarrow> Some (int (foldl (\<lambda>a c. 10 * a + (c - 48)) 0 Z))))"
  by (auto simp: parseInt_def Let_def split: list.splits)

lemmas codec_defs = children_def childrenAt_def getElementByKey_def getKey_def getKey_loop.simps GT_def
  COLON_def parseInt_eval isWhiteSpace_numeral second_def toString_def isDigit_def Let_def
  numToString_def digits10.simps elementAt_def keyTags_def keyIndices_def validTagName_def








section \<open>Stored texts and the save path\<close>

lemma rev_dropWhile_rev_prefix:
  "\<exists>m. rev (dropWhile P (rev u)) = take m u"
proof -
  have "rev (dropWhile P (rev u)) = rev (drop (length (takeWhile P (rev u))) (rev u))"
    by (simp add: dropWhile_eq_drop)
  also have "\<dots> = take (length u - length (takeWhile P (rev u))) u"
    by (simp add: rev_drop)
  finally show ?thesis by blast
qed

lemma dropWhile_fix: "xs = [] \<or> \<not> P (hd xs) \<Longrightarrow> dropWhile P xs = xs"
  by (cases xs) auto

lemma dropWhile_head: "dropWhile P xs = [] \<or> \<not> P (hd (dropWhile P xs))"
  by (induction xs) auto

lemma js_trim_idem: "js_trim (js_trim s) = js_trim s"
proof -
  let ?u = "dropWhile isWhiteSpace s"
  let ?t = "rev (dropWhile isWhiteSpace (rev ?u))"
  obtain m where m: "?t = take m ?u"
    using rev_dropWhile_rev_prefix [of isWhiteSpace ?u] by blast
  have front: "dropWhile isWhiteSpace ?t = ?t"
  proof (rule dropWhile_fix)
    show "?t = [] \<or> \<not> isWhiteSpace (hd ?t)"
    proof (cases "?t = []")
      case True
      then show ?thesis by simp
    next
      case False
      with m have "m \<noteq> 0" "?u \<noteq> []" by auto
      then have "hd ?t = hd ?u" using m by (simp add: hd_take)
      moreover have "\<not> isWhiteSpace (hd ?u)"
        using dropWhile_head [of isWhiteSpace s] \<open>?u \<noteq> []\<close> by blast
      ultimately show ?thesis by simp
    qed
  qed
  have rear: "dropWhile isWhiteSpace (rev ?t) = rev ?t"
    by (simp add: dropWhile_idem)
  show ?thesis
    unfolding js_trim_def front using rear by simp
qed

lemma set_AList_update: "set (AList.update k v al) \<subseteq> insert (k, v) (set al)"
  by (induction al) auto

lemma mergeEdited_values:
  "(k, t) \<in> set (mergeEdited previous batch) \<Longrightarrow>
   (k, t) \<in> set previous \<or> (\<exists>x. t = js_trim x)"
  unfolding mergeEdited_def
proof (induction batch arbitrary: previous)
  case Nil
  then show ?case by simp
next
  case (Cons e batch)
  obtain key cur where e: "e = (key, cur)" by (cases e)
  show ?case
  proof (cases "cur \<noteq> [] \<and> js_trim cur \<noteq> []")
    case True
    with Cons.prems e have "(k, t) \<in> set (fold (\<lambda>(key, currentText) allEdits.
             if currentText \<noteq> [] \<and> js_trim currentText \<noteq> []
             then AList.update key (js_trim currentText) allEdits
             else allEdits) batch (AList.update key (js_trim cur) previous))" by simp
    from Cons.IH [OF this] show ?thesis
      using set_AList_update [of key "js_trim cur" previous] by auto
  next
    case False
    with Cons.prems e have "(k, t) \<in> set (fold (\<lambda>(key, currentText) allEdits.
             if currentText \<noteq> [] \<and> js_trim currentText \<noteq> []
             then AList.update key (js_trim currentText) allEdits
             else allEdits) batch previous)" by auto
    from Cons.IH [OF this] show ?thesis .
  qed
qed

lemma trimmedStore_cong: "storedEdits s' = storedEdits s \<Longrightarrow> trimmedStore s' = trimmedStore s"
  by (simp add: trimmedStore_def)

lemma trimmedStoreD:
  "trimmedStore s \<Longrightarrow> storedEdits s pk = Some es \<Longrightarrow> (k, t) \<in> set es \<Longrightarrow> js_trim t = t"
  unfolding trimmedStore_def by blast

lemma trimmedStore_upd:
  assumes "trimmedStore s" and "\<forall>(k, t)\<in>set edits. js_trim t = t"
    and "storedEdits s' = (storedEdits s)(pk \<mapsto> edits)"
  shows "trimmedStore s'"
  using assms unfolding trimmedStore_def by auto

lemma getEditedElementsForPage_stored [simp]:
  "storedEdits (snd (getEditedElementsForPage s)) = storedEdits s"
  "location (snd (getEditedElementsForPage s)) = location s"
  "docBody (snd (getEditedElementsForPage s)) = docBody s"
  by (simp_all add: getEditedElementsForPage_def split: option.splits)

lemma editedSet_stored [simp]:
  "storedEdits (editedSet_add k s) = storedEdits s"
  "storedEdits (editedSet_clear s) = storedEdits s"
  "location (editedSet_clear s) = location s"
  by (simp_all add: editedSet_add_def editedSet_clear_def getEditedElementsForPage_def
      split: option.splits prod.splits)

lemma passes_stored [simp]:
  "storedEdits (applyEdits s) = storedEdits s"
  "storedEdits (enableEditing s) = storedEdits s"
  "storedEdits (disableEditing s) = storedEdits s"
  "storedEdits (onFocus el s) = storedEdits s"
  "storedEdits (onBlur el s) = storedEdits s"
  "storedEdits (observerCallback s) = storedEdits s"
  "storedEdits (pathCallback s) = storedEdits s"
  by (simp_all add: applyEdits_def enableEditing_def disableEditing_def onFocus_def onBlur_def
      observerCallback_def pathCallback_def Let_def)

lemma onMessage_stored [simp]: "storedEdits (snd (onMessage rq s)) = storedEdits s"
  by (cases rq) (simp_all add: Let_def split: prod.splits, simp add: getEditedElementsForPage_def split: option.splits)

lemma resume_stored [simp]: "storedEdits (resume n s) = storedEdits s"
proof (cases "n < length (pending s)")
  case False
  then show ?thesis by (simp add: resume_def)
next
  case True
  have "\<And>t. storedEdits (snd (continue t s)) = storedEdits s"
    subgoal for t by (cases "(t, s)" rule: continue.cases) simp_all
    done
  from this [of "pending s ! n"] show ?thesis using True
    by (cases "continue (pending s ! n) s") (auto simp: resume_def split: option.splits)
qed

lemma trimmedStore_frames [simp]:
  "trimmedStore (applyEdits s) = trimmedStore s"
  "trimmedStore (enableEditing s) = trimmedStore s"
  "trimmedStore (disableEditing s) = trimmedStore s"
  "trimmedStore (onFocus el s) = trimmedStore s"
  "trimmedStore (onBlur el s) = trimmedStore s"
  "trimmedStore (observerCallback s) = trimmedStore s"
  "trimmedStore (pathCallback s) = trimmedStore s"
  "trimmedStore (editedSet_add k s) = trimmedStore s"
  "trimmedStore (editedSet_clear s) = trimmedStore s"
  "trimmedStore (snd (onMessage rq s)) = trimmedStore s"
  "trimmedStore (resume n s) = trimmedStore s"
  "trimmedStore (snd (getEditedElementsForPage s)) = trimmedStore s"
  by (rule trimmedStore_cong, simp)+

lemma trimmedStore_fields [simp]:
  "trimmedStore (s\<lparr>docBody := b\<rparr>) = trimmedStore s"
  "trimmedStore (s\<lparr>location := l\<rparr>) = trimmedStore s"
  "trimmedStore (s\<lparr>storedEnabled := en\<rparr>) = trimmedStore s"
  "trimmedStore (s\<lparr>editingEnabled := e\<rparr>) = trimmedStore s"
  by (simp_all add: trimmedStore_def)

lemma trimmed_getSavedEdits:
  assumes "trimmedStore s" shows "\<forall>(k, t)\<in>set (getSavedEdits s). js_trim t = t"
proof (cases "storedEdits s (currentPageKey s)")
  case None
  then show ?thesis by (simp add: getSavedEdits_def)
next
  case (Some es)
  then show ?thesis using trimmedStoreD [OF assms Some] by (auto simp: getSavedEdits_def)
qed

lemma trimmed_popup_getSavedEdits:
  assumes "trimmedStore s" shows "\<forall>(k, t)\<in>set (popup_getSavedEdits s). js_trim t = t"
proof (cases "storedEdits s (location s)")
  case None
  then show ?thesis by (simp add: popup_getSavedEdits_def)
next
  case (Some es)
  then show ?thesis using trimmedStoreD [OF assms Some] by (auto simp: popup_getSavedEdits_def)
qed

lemma trimmedStore_saveEdit: "trimmedStore s \<Longrightarrow> trimmedStore (saveEdit el s)"
proof (cases "nodeAt (docBody s) el")
  case None
  assume "trimmedStore s"
  with None show ?thesis by (simp add: saveEdit_def)
next
  case (Some n)
  assume t: "trimmedStore s"
  let ?edits = "AList.update (getKey (docBody s) el) (js_trim (textContent n)) (getSavedEdits s)"
  have "\<forall>(k, t)\<in>set ?edits. js_trim t = t"
  proof (clarify)
    fix k t' assume "(k, t') \<in> set ?edits"
    then have "(k, t') = (getKey (docBody s) el, js_trim (textContent n)) \<or> (k, t') \<in> set (getSavedEdits s)"
      using set_AList_update [of "getKey (docBody s) el" "js_trim (textContent n)" "getSavedEdits s"]
      by blast
    then show "js_trim t' = t'"
    proof
      assume "(k, t') = (getKey (docBody s) el, js_trim (textContent n))"
      then show ?thesis by (simp add: js_trim_idem)
    next
      assume "(k, t') \<in> set (getSavedEdits s)"
      with trimmed_getSavedEdits [OF t] show ?thesis by blast
    qed
  qed
  moreover have "storedEdits (saveEdit el s) = (storedEdits s)(currentPageKey s \<mapsto> ?edits)"
    using Some by (simp add: saveEdit_def Let_def)
  ultimately show ?thesis by (rule trimmedStore_upd [OF t])
qed

lemma trimmedStore_onInput: "trimmedStore s \<Longrightarrow> trimmedStore (onInput el s)"
proof (cases "elementAt (docBody s) el")
  case None
  assume "trimmedStore s"
  with None show ?thesis by (simp add: onInput_def)
next
  case (Some n)
  assume t: "trimmedStore s"
  let ?s1 = "s\<lparr>docBody := setAttrs el (\<lambda>a. a\<lparr>isEditing := Some (str ''true'')\<rparr>) (docBody s)\<rparr>"
  let ?s2 = "editedSet_add (getKey (docBody ?s1) el) ?s1"
  have "trimmedStore ?s2" using t by simp
  then have "trimmedStore (saveEdit el ?s2)" by (rule trimmedStore_saveEdit)
  then show ?thesis using Some by (simp add: onInput_def Let_def)
qed

lemma trimmedStore_saveClick: "trimmedStore s \<Longrightarrow> trimmedStore (saveClick s)"
proof -
  assume t: "trimmedStore s"
  obtain ks s1 where g: "getEditedElementsForPage s = (ks, s1)" by (cases "getEditedElementsForPage s")
  then have s1: "storedEdits s1 = storedEdits s" "location s1 = location s"
    using getEditedElementsForPage_stored [of s] by simp_all
  have t1: "trimmedStore s1" using t s1 by (simp add: trimmedStore_def)
  let ?batch = "collectEdited (docBody s1) ks"
  let ?all = "mergeEdited (popup_getSavedEdits s1) ?batch"
  let ?s2 = "popup_saveEdits ?all s1"
  have sc: "saveClick s = snd (onMessage ClearEditedElements ?s2)"
    using g by (simp add: saveClick_def Let_def)
  have "\<forall>(k, t)\<in>set ?all. js_trim t = t"
  proof (clarify)
    fix k t' assume "(k, t') \<in> set ?all"
    then have "(k, t') \<in> set (popup_getSavedEdits s1) \<or> (\<exists>x. t' = js_trim x)"
      by (rule mergeEdited_values)
    then show "js_trim t' = t'"
    proof
      assume "(k, t') \<in> set (popup_getSavedEdits s1)"
      with trimmed_popup_getSavedEdits [OF t1] show ?thesis by blast
    next
      assume "\<exists>x. t' = js_trim x"
      then show ?thesis by (auto simp: js_trim_idem)
    qed
  qed
  moreover have "storedEdits ?s2 = (storedEdits s1)(location s1 \<mapsto> ?all)"
    by (simp add: popup_saveEdits_def)
  ultimately have "trimmedStore ?s2" by (rule trimmedStore_upd [OF t1])
  then show ?thesis unfolding sc by simp
qed

lemma trimmedStore_clearClick: "trimmedStore s \<Longrightarrow> trimmedStore (clearClick s)"
proof -
  assume t: "trimmedStore s"
  let ?s1 = "s\<lparr>storedEdits := (storedEdits s)(location s := None)\<rparr>"
  have "trimmedStore ?s1" using t by (auto simp: trimmedStore_def split: if_splits)
  then show ?thesis by (simp add: clearClick_def)
qed

lemma trimmedStore_toggleClick: "trimmedStore s \<Longrightarrow> trimmedStore (toggleClick s)"
  by (simp add: toggleClick_def Let_def)

lemma trimmedStore_step: "trimmedStore s \<Longrightarrow> trimmedStore (step e s)"
  by (cases e)
     (simp_all add: trimmedStore_onInput trimmedStore_saveClick trimmedStore_clearClick
        trimmedStore_toggleClick)

lemma trimmedStore_run: "trimmedStore s \<Longrightarrow> trimmedStore (run evs s)"
  unfolding run_def by (induction evs arbitrary: s) (simp_all add: trimmedStore_step)

lemma map_of_mergeEdited:
  "distinct (map fst batch) \<Longrightarrow>
   map_of (mergeEdited previous batch) k =
     (case map_of batch k of
        Some t \<Rightarrow> if t \<noteq> [] \<and> js_trim t \<noteq> [] then Some (js_trim t) else map_of previous k
      | None \<Rightarrow> map_of previous k)"
  unfolding mergeEdited_def
proof (induction batch arbitrary: previous)
  case Nil
  then show ?case by simp
next
  case (Cons e batch)
  obtain key cur where e: "e = (key, cur)" by (cases e)
  from Cons.prems e have d: "distinct (map fst batch)" and nk: "map_of batch key = None"
    by (auto simp: map_of_eq_None_iff)
  show ?case
    using Cons.IH [OF d] e nk
    by (auto simp: AList.update_conv' split: option.splits)
qed

lemma distinct_collectEdited_aux:
  "distinct (map fst acc) \<Longrightarrow>
   distinct (map fst (fold (\<lambda>key editedData.
             case getElementByKey body key of
               None \<Rightarrow> editedData
             | Some (r, el) \<Rightarrow> AList.update key (js_trim (textContent el)) editedData) ks acc))"
  by (induction ks arbitrary: acc) (auto simp: AList.distinct_update split: option.splits)

lemma distinct_collectEdited: "distinct (map fst (collectEdited body ks))"
  unfolding collectEdited_def by (rule distinct_collectEdited_aux) simp

lemma collectEdited_Nil [simp]: "collectEdited body [] = []"
  by (simp add: collectEdited_def)

text \<open>Frame lemmas: the fields a function leaves as they are.\<close>

lemma applyEdits_frame [simp]:
  "editedElementsMap (applyEdits s) = editedElementsMap s"
  "currentPageKey (applyEdits s) = currentPageKey s"
  "applying (applyEdits s) = applying s"
  "pending (applyEdits s) = pending s"
  "location (applyEdits s) = location s"
  "lastPath (applyEdits s) = lastPath s"
  by (simp_all add: applyEdits_def Let_def)

lemma enableEditing_frame [simp]:
  "editedElementsMap (enableEditing s) = editedElementsMap s"
  "currentPageKey (enableEditing s) = currentPageKey s"
  "applying (enableEditing s) = applying s"
  "pending (enableEditing s) = pending s"
  "location (enableEditing s) = location s"
  "lastPath (enableEditing s) = lastPath s"
  by (simp_all add: enableEditing_def)

lemma disableEditing_frame [simp]:
  "editedElementsMap (disableEditing s) = editedElementsMap s"
  "currentPageKey (disableEditing s) = currentPageKey s"
  "applying (disableEditing s) = applying s"
  "pending (disableEditing s) = pending s"
  "location (disableEditing s) = location s"
  "lastPath (disableEditing s) = lastPath s"
  by (simp_all add: disableEditing_def)

lemma onFocus_frame [simp]:
  "editedElementsMap (onFocus el s) = editedElementsMap s"
  "currentPageKey (onFocus el s) = currentPageKey s"
  "applying (onFocus el s) = applying s"
  "pending (onFocus el s) = pending s"
  by (simp_all add: onFocus_def)

lemma onBlur_frame [simp]:
  "editedElementsMap (onBlur el s) = editedElementsMap s"
  "currentPageKey (onBlur el s) = currentPageKey s"
  "applying (onBlur el s) = applying s"
  "pending (onBlur el s) = pending s"
  by (simp_all add: onBlur_def)

lemma getEditedElementsForPage_frame [simp]:
  "currentPageKey (snd (getEditedElementsForPage s)) = currentPageKey s"
  "applying (snd (getEditedElementsForPage s)) = applying s"
  "pending (snd (getEditedElementsForPage s)) = pending s"
  by (simp_all add: getEditedElementsForPage_def split: option.splits)

lemma editedSet_frame [simp]:
  "currentPageKey (editedSet_add k s) = currentPageKey s"
  "applying (editedSet_add k s) = applying s"
  "pending (editedSet_add k s) = pending s"
  "currentPageKey (editedSet_clear s) = currentPageKey s"
  "applying (editedSet_clear s) = applying s"
  "pending (editedSet_clear s) = pending s"
  "lastPath (editedSet_clear s) = lastPath s"
  by (simp_all add: editedSet_add_def editedSet_clear_def getEditedElementsForPage_def
      split: option.splits prod.splits)

lemma editedSet_clear_map [simp]:
  "editedElementsMap (editedSet_clear s) = (editedElementsMap s)(currentPageKey s \<mapsto> [])"
  by (auto simp: editedSet_clear_def getEditedElementsForPage_def split: option.splits prod.splits)

lemma saveEdit_frame [simp]:
  "editedElementsMap (saveEdit el s) = editedElementsMap s"
  "currentPageKey (saveEdit el s) = currentPageKey s"
  "applying (saveEdit el s) = applying s"
  "pending (saveEdit el s) = pending s"
  by (simp_all add: saveEdit_def Let_def split: option.splits)

lemma onInput_frame [simp]:
  "currentPageKey (onInput el s) = currentPageKey s"
  "applying (onInput el s) = applying s"
  "pending (onInput el s) = pending s"
  by (simp_all add: onInput_def Let_def split: option.splits)

lemma onMessage_frame [simp]:
  "currentPageKey (snd (onMessage rq s)) = currentPageKey s"
  "applying (snd (onMessage rq s)) = applying s"
  "pending (snd (onMessage rq s)) = pending s"
  "location (snd (onMessage rq s)) = location s"
  by (cases rq; simp add: Let_def split: prod.splits;
      simp add: getEditedElementsForPage_def split: option.splits)+

lemma popup_frame [simp]:
  "currentPageKey (saveClick s) = currentPageKey s"
  "applying (saveClick s) = applying s"
  "pending (saveClick s) = pending s"
  "currentPageKey (clearClick s) = currentPageKey s"
  "applying (clearClick s) = applying s"
  "pending (clearClick s) = pending s"
  "currentPageKey (toggleClick s) = currentPageKey s"
  "applying (toggleClick s) = applying s"
  "pending (toggleClick s) = pending s"
  "editedElementsMap (toggleClick s) = editedElementsMap s"
  by (simp_all add: saveClick_def clearClick_def toggleClick_def popup_saveEdits_def Let_def
      getEditedElementsForPage_def split: prod.splits response.splits option.splits)

section \<open>The tracker of edited elements\<close>

lemma noTrackedEdits_cong:
  "editedElementsMap s' = editedElementsMap s \<Longrightarrow> currentPageKey s' = currentPageKey s \<Longrightarrow>
   noTrackedEdits s' = noTrackedEdits s"
  by (simp add: noTrackedEdits_def)

lemma noTrackedEdits_clear [simp]: "noTrackedEdits (editedSet_clear s)"
  by (simp add: noTrackedEdits_def)

lemma noTrackedEdits_get:
  "noTrackedEdits s \<Longrightarrow> getEditedElementsForPage s = (ks, s') \<Longrightarrow> ks = [] \<and> noTrackedEdits s'"
  by (auto simp: noTrackedEdits_def getEditedElementsForPage_def split: option.splits)

lemma noTrackedEdits_onMessage:
  "noTrackedEdits s \<Longrightarrow> noTrackedEdits (snd (onMessage rq s))"
proof (cases rq)
  case GetEditedElements
  assume "noTrackedEdits s"
  then show ?thesis using GetEditedElements
    by (auto simp: Let_def split: prod.splits dest: noTrackedEdits_get)
next
  case ClearEditedElements
  then show ?thesis by simp
next
  case (SetEditingState en)
  assume "noTrackedEdits s"
  then show ?thesis using SetEditingState
    by (simp add: noTrackedEdits_def Let_def)
qed

lemma noTrackedEdits_response:
  "noTrackedEdits s \<Longrightarrow> fst (onMessage GetEditedElements s) = EditedElements []"
  by (auto simp: Let_def split: prod.splits dest: noTrackedEdits_get)

lemma noTrackedEdits_pathCallback: "noTrackedEdits s \<Longrightarrow> noTrackedEdits (pathCallback s)"
  by (simp add: pathCallback_def Let_def noTrackedEdits_def)

lemma pathCallback_changed:
  "location s \<noteq> lastPath s \<Longrightarrow>
   currentPageKey (pathCallback s) = location s \<and> lastPath (pathCallback s) = location s \<and>
   editedElementsMap (pathCallback s) (location s) = Some [] \<and> noTrackedEdits (pathCallback s)"
  by (simp add: pathCallback_def Let_def noTrackedEdits_def)

lemma continue_frame:
  "editedElementsMap (snd (continue t s)) = editedElementsMap s"
  "currentPageKey (snd (continue t s)) = currentPageKey s"
  "pending (snd (continue t s)) = pending s"
  by (cases "(t, s)" rule: continue.cases; simp)+

lemma resume_frame [simp]:
  "editedElementsMap (resume n s) = editedElementsMap s"
  "currentPageKey (resume n s) = currentPageKey s"
  using continue_frame [of "pending s ! n" s]
  by (cases "continue (pending s ! n) s"; auto simp: resume_def split: option.splits)+

lemma noTrackedEdits_step:
  assumes "noTrackedEdits s" and "\<not> isInput e"
  shows "noTrackedEdits (step e s)"
proof (cases e)
  case (Input el)
  with assms show ?thesis by simp
next
  case MutationBatch
  have "noTrackedEdits (observerCallback s)"
    using assms(1) by (simp add: observerCallback_def noTrackedEdits_def)
  then show ?thesis using MutationBatch by (simp add: noTrackedEdits_pathCallback)
next
  case (Message rq)
  then show ?thesis using assms(1) by (simp add: noTrackedEdits_onMessage)
next
  case SaveClick
  then show ?thesis
    by (auto simp: saveClick_def Let_def split: prod.splits response.splits)
next
  case ClearClick
  then show ?thesis by (simp add: clearClick_def)
next
  case ToggleClick
  then show ?thesis using assms(1) by (simp add: noTrackedEdits_def)
qed (insert assms(1), simp_all add: noTrackedEdits_def)

lemma noTrackedEdits_run:
  "noTrackedEdits s \<Longrightarrow> \<not> list_ex isInput evs \<Longrightarrow> noTrackedEdits (run evs s)"
  unfolding run_def by (induction evs arbitrary: s) (simp_all add: noTrackedEdits_step)

section \<open>The guard of the Mutation Watcher\<close>

lemma passesInFlight_cong:
  "pending s' = pending s \<Longrightarrow> passesInFlight s' = passesInFlight s"
  by (simp add: passesInFlight_def)

lemma guardAgrees_cong:
  "pending s' = pending s \<Longrightarrow> applying s' = applying s \<Longrightarrow> guardAgrees s' = guardAgrees s"
  by (simp add: guardAgrees_def passesInFlight_def)

lemma pathCallback_guard [simp]:
  "applying (pathCallback s) = applying s"
  "passesInFlight (pathCallback s) = passesInFlight s"
  by (simp_all add: pathCallback_def Let_def passesInFlight_def)

lemma observerCallback_guard:
  "applying (observerCallback s)"
  "passesInFlight (observerCallback s) = (if applying s then passesInFlight s else passesInFlight s + 1)"
  by (simp_all add: observerCallback_def passesInFlight_def)

lemma observerCallback_ignored: "applying s \<Longrightarrow> observerCallback s = s"
  by (simp add: observerCallback_def)

lemma filter_update_same:
  "n < length xs \<Longrightarrow> P (xs ! n) = P y \<Longrightarrow> length (filter P (xs[n := y])) = length (filter P xs)"
proof (induction xs arbitrary: n)
  case Nil
  then show ?case by simp
next
  case (Cons x xs)
  then show ?case by (cases n) auto
qed

lemma filter_remove_nth:
  "n < length xs \<Longrightarrow>
   length (filter P (take n xs @ drop (Suc n) xs)) =
     length (filter P xs) - (if P (xs ! n) then 1 else 0)"
proof (induction xs arbitrary: n)
  case Nil
  then show ?case by simp
next
  case (Cons x xs)
  show ?case
  proof (cases n)
    case 0
    then show ?thesis by simp
  next
    case (Suc m)
    with Cons.prems have m: "m < length xs" by simp
    have "P (xs ! m) \<Longrightarrow> 0 < length (filter P xs)"
      using m by (metis filter_empty_conv length_greater_0_conv nth_mem)
    with Cons.IH [OF m] Suc show ?thesis by auto
  qed
qed

lemma filter_nth_pos: "n < length xs \<Longrightarrow> P (xs ! n) \<Longrightarrow> 0 < length (filter P xs)"
  by (metis filter_empty_conv length_greater_0_conv nth_mem)

lemma continue_guard:
  "continue t s = (Some t', s') \<Longrightarrow>
     isObserverPass t' = isObserverPass t \<and> applying s' = applying s \<and> pending s' = pending s"
  "continue t s = (None, s') \<Longrightarrow>
     pending s' = pending s \<and> applying s' = (if isObserverPass t then False else applying s) \<and>
     (isObserverPass t \<longleftrightarrow> t = ObserverPass AtPreventActions)"
  by (cases "(t, s)" rule: continue.cases; auto)+

lemma resume_guard:
  assumes g: "guardAgrees s"
  shows "guardAgrees (resume n s) \<and>
         applying (resume n s) = (if endsPass (Resume n) s then False else applying s)"
proof (cases "n < length (pending s)")
  case False
  then show ?thesis using g by (simp add: resume_def)
next
  case True
  obtain r s' where c: "continue (pending s ! n) s = (r, s')" by (cases "continue (pending s ! n) s")
  show ?thesis
  proof (cases r)
    case (Some t')
    from continue_guard(1) [OF c [unfolded Some]]
    have iso: "isObserverPass t' = isObserverPass (pending s ! n)"
      and a: "applying s' = applying s" and p: "pending s' = pending s" by auto
    have res: "resume n s = s'\<lparr>pending := (pending s')[n := t']\<rparr>"
      using True c Some by (simp add: resume_def)
    have "passesInFlight (resume n s) = passesInFlight s"
      unfolding res passesInFlight_def using True p iso
      by (simp add: filter_update_same)
    moreover have "applying (resume n s) = applying s" unfolding res using a by simp
    moreover have "pending s ! n \<noteq> ObserverPass AtPreventActions"
      using c Some by auto
    ultimately show ?thesis using g True by (simp add: guardAgrees_def)
  next
    case None
    from continue_guard(2) [OF c [unfolded None]]
    have p: "pending s' = pending s"
      and a: "applying s' = (if isObserverPass (pending s ! n) then False else applying s)"
      and e: "isObserverPass (pending s ! n) \<longleftrightarrow> pending s ! n = ObserverPass AtPreventActions"
      by auto
    have res: "resume n s = s'\<lparr>pending := take n (pending s') @ drop (Suc n) (pending s')\<rparr>"
      using True c None by (simp add: resume_def)
    have cnt: "passesInFlight (resume n s) =
        passesInFlight s - (if isObserverPass (pending s ! n) then 1 else 0)"
      unfolding res passesInFlight_def using filter_remove_nth [OF True, of isObserverPass] p
      by (simp del: filter_append)
    have app: "applying (resume n s) = (if isObserverPass (pending s ! n) then False else applying s)"
      unfolding res using a by simp
    show ?thesis
    proof (cases "isObserverPass (pending s ! n)")
      case False
      then show ?thesis using g cnt app e True by (simp add: guardAgrees_def)
    next
      case isO: True
      then have "0 < passesInFlight s"
        unfolding passesInFlight_def using True by (intro filter_nth_pos)
      with g have "passesInFlight s = 1" by (simp add: guardAgrees_def split: if_splits)
      then show ?thesis using cnt app e isO True by (simp add: guardAgrees_def)
    qed
  qed
qed

lemma step_guard:
  assumes g: "guardAgrees s"
  shows "guardAgrees (step e s) \<and>
         applying (step e s) =
           (if e = MutationBatch then True else if endsPass e s then False else applying s)"
proof (cases e)
  case MutationBatch
  then show ?thesis using g observerCallback_guard [of s]
    by (simp add: guardAgrees_def)
next
  case (Resume n)
  then show ?thesis using resume_guard [OF g, of n] by simp
qed (insert g, simp_all add: guardAgrees_def passesInFlight_def)

lemma guardAgrees_run: "guardAgrees s \<Longrightarrow> guardAgrees (run evs s)"
  unfolding run_def by (induction evs arbitrary: s) (simp_all add: step_guard)

lemma passes_balance:
  "guardAgrees s \<Longrightarrow>
   passesStarted evs s + (if applying s then 1 else 0) =
     passesEnded evs s + (if applying (run evs s) then 1 else 0)"
proof (induction evs arbitrary: s)
  case Nil
  then show ?case by (simp add: run_def)
next
  case (Cons e evs)
  from step_guard [OF Cons.prems, of e]
  have g': "guardAgrees (step e s)"
    and a': "applying (step e s) =
           (if e = MutationBatch then True else if endsPass e s then False else applying s)"
    by auto
  have ends: "endsPass e s \<Longrightarrow> applying s"
  proof -
    assume en: "endsPass e s"
    then obtain n where e: "e = Resume n" by (cases e) auto
    with en have "n < length (pending s)" "isObserverPass (pending s ! n)" by auto
    then have "0 < passesInFlight s" unfolding passesInFlight_def by (intro filter_nth_pos)
    with Cons.prems show "applying s" by (simp add: guardAgrees_def split: if_splits)
  qed
  have notboth: "e = MutationBatch \<Longrightarrow> \<not> endsPass e s" by auto
  have r: "run (e # evs) s = run evs (step e s)" by (simp add: run_def)
  show ?case
    using Cons.IH [OF g'] a' ends notboth unfolding r
    by (cases "e = MutationBatch"; cases "endsPass e s"; cases "applying s"; simp)
qed

section \<open>The claims on the watchers and the store\<close>

lemmas state_defs = exState_def exSaveState_def pageA_def pageB_def

lemma startState_fields:
  "location (startState b l edits en) = l"
  "lastPath (startState b l edits en) = l"
  "currentPageKey (startState b l edits en) = l"
  "applying (startState b l edits en) = False"
  "pending (startState b l edits en) = []"
  "storedEdits (startState b l edits en) = edits"
  "editedElementsMap (startState b l edits en) = [l \<mapsto> []]"
  by (simp_all add: startState_def)

lemma guardAgrees_startState: "guardAgrees (startState b l edits en)"
  by (simp add: guardAgrees_def passesInFlight_def startState_fields)

lemma storm_starts_nothing:
  "applying s \<Longrightarrow> passesStarted (replicate n MutationBatch) s = 0 \<and>
     applying (run (replicate n MutationBatch) s)"
proof (induction n arbitrary: s)
  case 0
  then show ?case by (simp add: run_def)
next
  case (Suc n)
  have a: "applying (step MutationBatch s)"
    using Suc.prems by (simp add: observerCallback_guard)
  from Suc.IH [OF a] Suc.prems show ?case by (simp add: run_def)
qed

text \<open>
  Claim C6. When a mutation batch arrives and the location differs from the last known
  page key, the Navigation Watcher makes the location the current page key and the last
  known one and empties the set of tracked keys of the new page; a \<^verbatim>\<open>getEditedElements\<close>
  request answered right after it returns the empty mapping, and so does one answered
  after any further events among which there is no input event.
\<close>

theorem C6_navigation_clears_tracker:
  assumes nav: "location s \<noteq> lastPath s"
  shows "currentPageKey (step MutationBatch s) = location s \<and>
         lastPath (step MutationBatch s) = location s \<and>
         editedElementsMap (step MutationBatch s) (location s) = Some [] \<and>
         fst (onMessage GetEditedElements (step MutationBatch s)) = EditedElements [] \<and>
         (\<forall>evs. \<not> list_ex isInput evs \<longrightarrow>
            fst (onMessage GetEditedElements (run evs (step MutationBatch s))) = EditedElements [])"
proof -
  let ?s1 = "observerCallback s"
  have l: "location ?s1 = location s" "lastPath ?s1 = lastPath s"
    by (simp_all add: observerCallback_def)
  then have nav1: "location ?s1 \<noteq> lastPath ?s1" using nav by simp
  from pathCallback_changed [OF nav1] l
  have k: "currentPageKey (step MutationBatch s) = location s"
    and p: "lastPath (step MutationBatch s) = location s"
    and m: "editedElementsMap (step MutationBatch s) (location s) = Some []"
    and e: "noTrackedEdits (step MutationBatch s)" by simp_all
  have now: "fst (onMessage GetEditedElements (step MutationBatch s)) = EditedElements []"
    using e by (rule noTrackedEdits_response)
  have later: "\<forall>evs. \<not> list_ex isInput evs \<longrightarrow>
            fst (onMessage GetEditedElements (run evs (step MutationBatch s))) = EditedElements []"
  proof (intro allI impI)
    fix evs assume "\<not> list_ex isInput evs"
    with e have "noTrackedEdits (run evs (step MutationBatch s))" by (rule noTrackedEdits_run)
    then show "fst (onMessage GetEditedElements (run evs (step MutationBatch s))) = EditedElements []"
      by (rule noTrackedEdits_response)
  qed
  from k p m now later show ?thesis by blast
qed

theorem C6_navigation_clears_tracker_witness:
  "fst (onMessage GetEditedElements (step (HostSetLocation pageB) exSaveState)) =
     EditedElements [(str ''DIV:0>SPAN:0'', str ''Hello World'')] \<and>
   location (step (HostSetLocation pageB) exSaveState) \<noteq> lastPath (step (HostSetLocation pageB) exSaveState) \<and>
   currentPageKey (step MutationBatch (step (HostSetLocation pageB) exSaveState)) = pageB \<and>
   fst (onMessage GetEditedElements (step MutationBatch (step (HostSetLocation pageB) exSaveState))) =
     EditedElements [] \<and>
   fst (onMessage GetEditedElements
         (run [Resume 0, Focus [0, 1], MutationBatch, Message ClearEditedElements]
            (step MutationBatch (step (HostSetLocation pageB) exSaveState)))) = EditedElements []"
proof -
  let ?s = "step (HostSetLocation pageB) exSaveState"
  have before: "fst (onMessage GetEditedElements ?s) =
      EditedElements [(str ''DIV:0>SPAN:0'', str ''Hello World'')]"
    by (simp add: exSaveState_def getEditedElementsForPage_def collectEdited_def ex_defs codec_defs
        js_trim_def pageA_def)
  have nav: "location ?s \<noteq> lastPath ?s"
    by (simp add: exSaveState_def pageA_def pageB_def str_def)
  have loc: "location ?s = pageB" by simp
  have quiet: "\<not> list_ex isInput [Resume 0, Focus [0, 1], MutationBatch, Message ClearEditedElements]"
    by simp
  from C6_navigation_clears_tracker [OF nav] before nav loc quiet show ?thesis by simp
qed

text \<open>
  Claim C8. Let \<open>batch\<close> be the answer of the content script to \<^verbatim>\<open>getEditedElements\<close>. Its
  keys are distinct. After the click on the save button, the edit set stored for the
  page maps every key of the batch whose text and trimmed text are not empty to the
  trimmed text, and maps every key that is not in the batch to what it was mapped to
  before; the edit sets of other pages are as before.
\<close>

theorem C8_save_overwrites_only_batch_keys:
  assumes resp: "onMessage GetEditedElements s = (EditedElements batch, s1)"
  shows "distinct (map fst batch) \<and>
         popup_getSavedEdits (saveClick s) = mergeEdited (popup_getSavedEdits s) batch \<and>
         (\<forall>(key, text)\<in>set batch. text \<noteq> [] \<and> js_trim text \<noteq> [] \<longrightarrow>
            map_of (popup_getSavedEdits (saveClick s)) key = Some (js_trim text)) \<and>
         (\<forall>key. key \<notin> fst ` set batch \<longrightarrow>
            map_of (popup_getSavedEdits (saveClick s)) key = map_of (popup_getSavedEdits s) key) \<and>
         (\<forall>pageKey. pageKey \<noteq> location s \<longrightarrow>
            storedEdits (saveClick s) pageKey = storedEdits s pageKey)"
proof -
  obtain ks where g: "getEditedElementsForPage s = (ks, s1)"
    and b: "batch = collectEdited (docBody s1) ks"
    using resp by (auto simp: Let_def split: prod.splits)
  have s1: "storedEdits s1 = storedEdits s" "location s1 = location s"
    using getEditedElementsForPage_stored [of s] g by simp_all
  have d: "distinct (map fst batch)" unfolding b by (rule distinct_collectEdited)
  let ?all = "mergeEdited (popup_getSavedEdits s1) batch"
  have prev: "popup_getSavedEdits s1 = popup_getSavedEdits s"
    using s1 by (simp add: popup_getSavedEdits_def)
  have sc: "saveClick s = snd (onMessage ClearEditedElements (popup_saveEdits ?all s1))"
    using resp by (simp add: saveClick_def Let_def)
  have st: "storedEdits (saveClick s) = (storedEdits s)(location s \<mapsto> ?all)"
    unfolding sc using s1 by (simp add: popup_saveEdits_def)
  have loc: "location (saveClick s) = location s"
    unfolding sc using s1 by (simp add: popup_saveEdits_def)
  have saved: "popup_getSavedEdits (saveClick s) = mergeEdited (popup_getSavedEdits s) batch"
    using st loc prev by (simp add: popup_getSavedEdits_def)
  have inb: "\<forall>(key, text)\<in>set batch. text \<noteq> [] \<and> js_trim text \<noteq> [] \<longrightarrow>
            map_of (popup_getSavedEdits (saveClick s)) key = Some (js_trim text)"
    unfolding saved using d by (auto simp: map_of_mergeEdited)
  have out: "\<forall>key. key \<notin> fst ` set batch \<longrightarrow>
            map_of (popup_getSavedEdits (saveClick s)) key = map_of (popup_getSavedEdits s) key"
  proof (intro allI impI)
    fix key assume "key \<notin> fst ` set batch"
    then have "map_of batch key = None" by (simp add: map_of_eq_None_iff)
    then show "map_of (popup_getSavedEdits (saveClick s)) key = map_of (popup_getSavedEdits s) key"
      unfolding saved using d by (simp add: map_of_mergeEdited)
  qed
  have other: "\<forall>pageKey. pageKey \<noteq> location s \<longrightarrow>
            storedEdits (saveClick s) pageKey = storedEdits s pageKey"
    using st by simp
  from d saved inb out other show ?thesis by blast
qed

theorem C8_save_overwrites_only_batch_keys_witness:
  "onMessage GetEditedElements exSaveState =
     (EditedElements [(str ''DIV:0>SPAN:0'', str ''Hello World'')], exSaveState) \<and>
   popup_getSavedEdits exSaveState =
     [(str ''DIV:0>SPAN:0'', str ''old''), (str ''DIV:0>SPAN:7'', str ''keep'')] \<and>
   popup_getSavedEdits (saveClick exSaveState) =
     [(str ''DIV:0>SPAN:0'', str ''Hello World''), (str ''DIV:0>SPAN:7'', str ''keep'')] \<and>
   map_of (popup_getSavedEdits (saveClick exSaveState)) (str ''DIV:0>SPAN:0'') = Some (str ''Hello World'') \<and>
   map_of (popup_getSavedEdits (saveClick exSaveState)) (str ''DIV:0>SPAN:7'') = Some (str ''keep'')"
proof -
  have resp: "onMessage GetEditedElements exSaveState =
      (EditedElements [(str ''DIV:0>SPAN:0'', str ''Hello World'')], exSaveState)"
    by (simp add: exSaveState_def getEditedElementsForPage_def collectEdited_def ex_defs codec_defs
        js_trim_def pageA_def)
  have prev: "popup_getSavedEdits exSaveState =
      [(str ''DIV:0>SPAN:0'', str ''old''), (str ''DIV:0>SPAN:7'', str ''keep'')]"
    by (simp add: exSaveState_def popup_getSavedEdits_def)
  have merge: "mergeEdited [(str ''DIV:0>SPAN:0'', str ''old''), (str ''DIV:0>SPAN:7'', str ''keep'')]
      [(str ''DIV:0>SPAN:0'', str ''Hello World'')] =
      [(str ''DIV:0>SPAN:0'', str ''Hello World''), (str ''DIV:0>SPAN:7'', str ''keep'')]"
    by (simp add: mergeEdited_def str_def js_trim_def isWhiteSpace_numeral)
  have ne: "str ''DIV:0>SPAN:7'' \<noteq> str ''DIV:0>SPAN:0''" by (simp add: str_def)
  from C8_save_overwrites_only_batch_keys [OF resp] resp prev merge ne show ?thesis by simp
qed

text \<open>
  Claim C9. In every execution from the state in which the observers start, at every
  moment at most one pass of the Mutation Watcher is in flight, and the guard is set
  exactly when one is. While the guard is set, the callback of the Mutation Watcher
  leaves the state as it is: the batch is dropped and nothing is queued; a storm of
  \<open>n\<close> batches starts no pass and leaves the one pass in flight. Along the whole
  execution the passes started are at most one more than the passes ended, so a new
  pass starts only after the pass in flight has ended.
\<close>

theorem C9_guard_coalesces:
  fixes b l edits en evs n
  defines "s \<equiv> run evs (startState b l edits en)"
  shows "passesInFlight s \<le> 1 \<and>
         (applying s \<longleftrightarrow> passesInFlight s = 1) \<and>
         (applying s \<longrightarrow>
            observerCallback s = s \<and>
            passesStarted (replicate n MutationBatch) s = 0 \<and>
            passesInFlight (run (replicate n MutationBatch) s) = 1) \<and>
         passesStarted evs (startState b l edits en) \<le> passesEnded evs (startState b l edits en) + 1"
proof -
  let ?s0 = "startState b l edits en"
  have g0: "guardAgrees ?s0" by (rule guardAgrees_startState)
  then have g: "guardAgrees s" unfolding s_def by (rule guardAgrees_run)
  then have one: "passesInFlight s \<le> 1" and iff: "applying s \<longleftrightarrow> passesInFlight s = 1"
    by (simp_all add: guardAgrees_def split: if_splits)
  have storm: "applying s \<longrightarrow>
            observerCallback s = s \<and>
            passesStarted (replicate n MutationBatch) s = 0 \<and>
            passesInFlight (run (replicate n MutationBatch) s) = 1"
  proof
    assume a: "applying s"
    from storm_starts_nothing [OF a, of n]
    have st: "passesStarted (replicate n MutationBatch) s = 0"
      and a': "applying (run (replicate n MutationBatch) s)" by auto
    have "guardAgrees (run (replicate n MutationBatch) s)" using g by (rule guardAgrees_run)
    with a' have "passesInFlight (run (replicate n MutationBatch) s) = 1"
      by (simp add: guardAgrees_def)
    with a st show "observerCallback s = s \<and>
            passesStarted (replicate n MutationBatch) s = 0 \<and>
            passesInFlight (run (replicate n MutationBatch) s) = 1"
      by (simp add: observerCallback_ignored)
  qed
  have "passesStarted evs ?s0 + (if applying ?s0 then 1 else 0) =
        passesEnded evs ?s0 + (if applying (run evs ?s0) then 1 else 0)"
    using g0 by (rule passes_balance)
  then have "passesStarted evs ?s0 \<le> passesEnded evs ?s0 + 1"
    by (simp add: startState_fields split: if_splits)
  with one iff storm show ?thesis by blast
qed

theorem C9_guard_coalesces_witness:
  "applying (run [MutationBatch] exState) \<and>
   passesInFlight (run [MutationBatch] exState) = 1 \<and>
   observerCallback (run [MutationBatch] exState) = run [MutationBatch] exState \<and>
   passesStarted (replicate 5 MutationBatch) (run [MutationBatch] exState) = 0 \<and>
   passesInFlight (run (replicate 5 MutationBatch) (run [MutationBatch] exState)) = 1 \<and>
   passesStarted [MutationBatch] exState \<le> passesEnded [MutationBatch] exState + 1"
proof -
  have a: "applying (run [MutationBatch] (startState exDoc pageA Map.empty None))"
    by (simp add: run_def observerCallback_guard)
  from C9_guard_coalesces [of "[MutationBatch]" exDoc pageA Map.empty None 5] a
  show ?thesis by (simp add: exState_def)
qed

lemma docBody_editedSet_add [simp]: "docBody (editedSet_add key s) = docBody s"
  by (simp add: editedSet_add_def getEditedElementsForPage_def split: option.splits prod.splits)

lemma getSavedEdits_editedSet_add [simp]: "getSavedEdits (editedSet_add key s) = getSavedEdits s"
  by (simp add: getSavedEdits_def)

lemma getSavedEdits_onInput:
  assumes "elementAt (docBody s) el = Some n"
    and "nodeAt (setAttrs el (isEditing_update (\<lambda>_. Some (str ''true''))) (docBody s)) el = Some n'"
  shows "getSavedEdits (onInput el s) =
     AList.update (getKey (setAttrs el (isEditing_update (\<lambda>_. Some (str ''true''))) (docBody s)) el)
       (js_trim (textContent n')) (getSavedEdits s)"
proof -
  let ?b = "setAttrs el (isEditing_update (\<lambda>_. Some (str ''true''))) (docBody s)"
  let ?s2 = "editedSet_add (getKey ?b el) (s\<lparr>docBody := ?b\<rparr>)"
  have o: "onInput el s = saveEdit el ?s2"
    using assms(1) by (simp add: onInput_def Let_def)
  have n: "nodeAt (docBody ?s2) el = Some n'" using assms(2) by simp
  have g: "getSavedEdits ?s2 = getSavedEdits s" by (simp add: getSavedEdits_def)
  show ?thesis unfolding o using n g by (simp add: saveEdit_def getSavedEdits_def Let_def)
qed

text \<open>
  Claim C10. If every stored text is its own trim, this is still so after an input
  event (the capture path, \<^verbatim>\<open>saveEdit\<close>), after a click on the save button (the popup save
  path) and after any sequence of events. The text that \<^verbatim>\<open>saveEdit\<close> stores under the key
  of the element is the trimmed text of the element, which is its own trim; every entry
  that the loop of the save handler produces is an entry of the previous edit set or
  has a text that is its own trim.
\<close>

theorem C10_stored_texts_trimmed:
  assumes t: "trimmedStore s"
  shows "trimmedStore (onInput el s) \<and> trimmedStore (saveClick s) \<and> trimmedStore (run evs s) \<and>
         (\<forall>n. nodeAt (docBody s) el = Some n \<longrightarrow>
            map_of (getSavedEdits (saveEdit el s)) (getKey (docBody s) el) = Some (js_trim (textContent n)) \<and>
            js_trim (js_trim (textContent n)) = js_trim (textContent n)) \<and>
         (\<forall>previous batch k v. (k, v) \<in> set (mergeEdited previous batch) \<longrightarrow>
            (k, v) \<in> set previous \<or> js_trim v = v)"
proof -
  have w: "\<forall>n. nodeAt (docBody s) el = Some n \<longrightarrow>
            map_of (getSavedEdits (saveEdit el s)) (getKey (docBody s) el) = Some (js_trim (textContent n)) \<and>
            js_trim (js_trim (textContent n)) = js_trim (textContent n)"
    by (simp add: saveEdit_def getSavedEdits_def Let_def AList.update_conv' js_trim_idem)
  have m: "\<forall>previous batch k v. (k, v) \<in> set (mergeEdited previous batch) \<longrightarrow>
            (k, v) \<in> set previous \<or> js_trim v = v"
  proof (intro allI impI)
    fix previous batch k v assume "(k, v) \<in> set (mergeEdited previous batch)"
    then have "(k, v) \<in> set previous \<or> (\<exists>x. v = js_trim x)" by (rule mergeEdited_values)
    then show "(k, v) \<in> set previous \<or> js_trim v = v" by (auto simp: js_trim_idem)
  qed
  from t trimmedStore_onInput [OF t] trimmedStore_saveClick [OF t] trimmedStore_run [OF t] w m
  show ?thesis by blast
qed

theorem C10_stored_texts_trimmed_witness:
  "trimmedStore exState \<and>
   trimmedStore (onInput [0, 1] exState) \<and>
   trimmedStore (saveClick (onInput [0, 1] exState)) \<and>
   trimmedStore (run [Input [0, 1], SaveClick] exState) \<and>
   textContent exSpan = str '' Hello World '' \<and>
   getSavedEdits (onInput [0, 1] exState) = [(str ''DIV:0>SPAN:0'', str ''Hello World'')]"
proof -
  have t: "trimmedStore exState"
    by (simp add: exState_def trimmedStore_def startState_fields)
  have d: "docBody exState =
      Element (mkAttrs (str ''BODY''))
        [Element ((mkAttrs (str ''DIV''))\<lparr>classList := [str ''_1b33'']\<rparr>)
          [Text (str '' ''),
           Element ((mkAttrs (str ''SPAN''))\<lparr>editReady := Some (str ''true''),
               contentEditable := Some (str ''true'')\<rparr>) [Text (str '' Hello World '')]]]"
    by (simp add: exState_def startState_def editedSet_clear_def getEditedElementsForPage_def
        enableEditing_def applyEdits_def getSavedEdits_def isEditingEnabled_def initElement_def
        hasPreventedClass_def truthy_def startsWith_def isDiv1b33_def js_trim_def
        ex_defs codec_defs)
  have k: "storedEdits exState = Map.empty" "currentPageKey exState = pageA"
    by (simp_all add: exState_def startState_fields)
  have e1: "elementAt (docBody exState) [0, 1] =
      Some (Element ((mkAttrs (str ''SPAN''))\<lparr>editReady := Some (str ''true''),
               contentEditable := Some (str ''true'')\<rparr>) [Text (str '' Hello World '')])"
    by (simp add: d elementAt_def)
  have e2: "getKey (setAttrs [0, 1] (isEditing_update (\<lambda>_. Some (str ''true''))) (docBody exState)) [0, 1]
      = str ''DIV:0>SPAN:0''"
    by (simp add: d setAttrs_def mkAttrs_def str_def codec_defs)
  have e3: "nodeAt (setAttrs [0, 1] (isEditing_update (\<lambda>_. Some (str ''true''))) (docBody exState)) [0, 1] =
      Some (Element (isEditing_update (\<lambda>_. Some (str ''true''))
              ((mkAttrs (str ''SPAN''))\<lparr>editReady := Some (str ''true''),
                 contentEditable := Some (str ''true'')\<rparr>)) [Text (str '' Hello World '')])"
    by (simp add: d setAttrs_def)
  have e4: "js_trim (str '' Hello World '') = str ''Hello World''"
    by (simp add: js_trim_def str_def isWhiteSpace_numeral)
  have "getSavedEdits exState = []" by (simp add: getSavedEdits_def k)
  then have s: "getSavedEdits (onInput [0, 1] exState) = [(str ''DIV:0>SPAN:0'', str ''Hello World'')]"
    unfolding getSavedEdits_onInput [OF e1 e3] e2 by (simp add: e4)
  have x: "textContent exSpan = str '' Hello World ''" by (simp add: exSpan_def)
  from C10_stored_texts_trimmed [OF t, of "[0, 1]" "[Input [0, 1], SaveClick]"]
    C10_stored_texts_trimmed [of "onInput [0, 1] exState" "[0, 1]" "[]"] t s x
  show ?thesis by simp
qed

section \<open>Toggling the capability\<close>

lemmas editing_defs = startState_def editedSet_clear_def getEditedElementsForPage_def
  enableEditing_def disableEditing_def applyEdits_def getSavedEdits_def isEditingEnabled_def
  initElement_def hasPreventedClass_def truthy_def startsWith_def isDiv1b33_def js_trim_def
  revoke_def toggleClick_def editability_def PREVENTED_CLASSES_def

text \<open>
  Claim C1 fails on the code. On the first example document the \<^verbatim>\<open>span\<close> is initialised:
  processed marker and \<^verbatim>\<open>contenteditable\<close> are \<^verbatim>\<open>"true"\<close>. The toggle button turns the
  capability off: both become the string \<^verbatim>\<open>"false"\<close>. The toggle button turns it on again:
  \<^verbatim>\<open>enableEditing\<close> runs with the capability enabled, finds the marker \<^verbatim>\<open>"false"\<close> truthy and
  passes the element by, so it is still not editable.
\<close>

theorem C1_failing_input:
  "editability exState [0, 1] = Some (Some (str ''true''), Some (str ''true'')) \<and>
   isEditingEnabled exState \<and>
   editability (toggleClick exState) [0, 1] = Some (Some (str ''false''), Some (str ''false'')) \<and>
   \<not> isEditingEnabled (toggleClick exState) \<and>
   editability (toggleClick (toggleClick exState)) [0, 1] = Some (Some (str ''false''), Some (str ''false'')) \<and>
   isEditingEnabled (toggleClick (toggleClick exState)) \<and>
   editingEnabled (toggleClick (toggleClick exState))"
  by (simp add: exState_def editing_defs ex_defs codec_defs)

section \<open>Reconciler\<close>

lemma setText_modifyAt: "setText r t body = modifyAt r (textSetter t) body"
  by (simp add: setText_def)

lemma textSetter_simps [simp]:
  "shape (textSetter t n) = shape n"
  "childNodes (textSetter t n) = childNodes n"
  "isElement (textSetter t n) = isElement n"
  "attrsOf (textSetter t n) = attrsOf n"
  by (cases n; simp add: textSetter_def)+

lemma shape_modifyAt:
  "(\<And>n. shape (f n) = shape n) \<Longrightarrow> shape (modifyAt r f b) = shape b"
proof (induction r arbitrary: b)
  case Nil
  then show ?case by simp
next
  case (Cons k r)
  show ?case
  proof (cases b)
    case (Element a cs)
    show ?thesis
    proof (cases "k < length cs")
      case True
      have "map shape (cs[k := modifyAt r f (cs ! k)]) = (map shape cs)[k := shape (cs ! k)]"
        using Cons.IH [OF Cons.prems, of "cs ! k"] by (simp add: map_update)
      also have "\<dots> = map shape cs" using True by (simp add: list_update_same_conv)
      finally show ?thesis using Element True by simp
    next
      case False
      then show ?thesis using Element by simp
    qed
  qed simp_all
qed

lemma shape_setText [simp]: "shape (setText r t b) = shape b"
  unfolding setText_modifyAt by (rule shape_modifyAt) simp

lemma shape_applyEdit [simp]: "shape (fst (applyEdit e st)) = shape (fst st)"
  by (simp add: applyEdit_def Let_def split: option.splits prod.splits list.splits)

lemma shape_fold_applyEdit [simp]: "shape (fst (fold applyEdit es st)) = shape (fst st)"
  by (induction es arbitrary: st) simp_all

lemma shape_facts [simp]:
  "isElement (shape n) = isElement n"
  "attrsOf (shape n) = attrsOf n"
  "childNodes (shape n) = map shape (childNodes n)"
  by (cases n; simp)+

lemma children_shape [simp]: "children (shape n) = children n"
  by (auto simp: children_def intro!: filter_cong)

lemma nodeAt_shape: "nodeAt (shape n) r = map_option shape (nodeAt n r)"
  by (induction r arbitrary: n) auto

lemma descend_shape: "descend (shape n) is = descend n is"
proof (induction "is" arbitrary: n)
  case Nil
  then show ?case by simp
next
  case (Cons i "is")
  show ?case
  proof (cases "i < length (children n)")
    case True
    then have "children n ! i \<in> set (children n)" by simp
    then have "children n ! i < length (childNodes n)" by (simp add: children_mem)
    then show ?thesis using True Cons.IH [of "childNodes n ! (children n ! i)"] by simp
  next
    case False
    then show ?thesis by simp
  qed
qed

lemma textNodes_shape:
  "textNodes (shape n) = textNodes n"
  "textNodesIn k (map shape cs) = textNodesIn k cs"
  by (induction n and k cs rule: textNodes_textNodesIn.induct) simp_all

lemma walkTextNodes_shape [simp]: "walkTextNodes (shape n) = walkTextNodes n"
  by (simp add: walkTextNodes_def textNodes_shape)

lemma same_shape_descend: "shape b = shape b' \<Longrightarrow> descend b is = descend b' is"
  by (metis descend_shape)

lemma same_shape_nodeAt:
  "shape b = shape b' \<Longrightarrow> nodeAt b r = Some e \<Longrightarrow> \<exists>e'. nodeAt b' r = Some e' \<and> shape e' = shape e"
proof -
  assume sh: "shape b = shape b'" and at: "nodeAt b r = Some e"
  have "nodeAt (shape b') r = Some (shape e)" using at nodeAt_shape [of b r] sh by simp
  then show ?thesis by (auto simp: nodeAt_shape)
qed

lemma namedItem_shape [simp]: "namedItem (shape n) key = namedItem n key"
proof -
  have "(elemId (attrsOf (childNodes (shape n) ! k)) = key \<or>
         nameAttr (attrsOf (childNodes (shape n) ! k)) = key) =
        (elemId (attrsOf (childNodes n ! k)) = key \<or> nameAttr (attrsOf (childNodes n ! k)) = key)"
    if "k \<in> set (children n)" for k
  proof -
    from that have "k < length (childNodes n)" by (simp add: children_mem)
    then show ?thesis by simp
  qed
  then show ?thesis unfolding namedItem_def by (auto intro!: find_cong)
qed

lemma childrenAt_shape [simp]: "childrenAt (shape n) i = childrenAt n i"
  by (simp add: childrenAt_def)

lemma walk_shape: "walk (shape n) is = walk n is"
proof (induction "is" arbitrary: n)
  case Nil
  then show ?case by simp
next
  case (Cons i "is")
  show ?case
  proof (cases "childrenAt n i")
    case None
    then show ?thesis by simp
  next
    case (Some k)
    from childrenAt_mem [OF this] have "k < length (childNodes n)" by (simp add: children_mem)
    then show ?thesis using Some Cons.IH [of "childNodes n ! k"] by simp
  qed
qed

lemma walk_same_shape: "shape b = shape b' \<Longrightarrow> walk b is = walk b' is"
  by (metis walk_shape)

lemma same_shape_getElementByKey:
  assumes sh: "shape b = shape b'"
  shows "getElementByKey b key = Some (r, e) \<Longrightarrow>
         \<exists>e'. getElementByKey b' key = Some (r, e') \<and> shape e' = shape e"
    and "getElementByKey b key = None \<Longrightarrow> getElementByKey b' key = None"
proof -
  { fix r e assume "getElementByKey b key = Some (r, e)"
    then obtain js where js: "keyIndices key = map Some js"
      and d: "walk b js = Some r" and at: "nodeAt b r = Some e"
      unfolding getElementByKey_walk by blast
    from same_shape_nodeAt [OF sh at] obtain e' where e': "nodeAt b' r = Some e'" "shape e' = shape e"
      by blast
    have "walk b' js = Some r" using d walk_same_shape [OF sh] by simp
    with js e' have "\<exists>e'. getElementByKey b' key = Some (r, e') \<and> shape e' = shape e"
      unfolding getElementByKey_walk by blast }
  note fwd = this
  show "getElementByKey b key = Some (r, e) \<Longrightarrow>
         \<exists>e'. getElementByKey b' key = Some (r, e') \<and> shape e' = shape e" by (rule fwd)
  show "getElementByKey b key = None \<Longrightarrow> getElementByKey b' key = None"
  proof (rule ccontr)
    assume n: "getElementByKey b key = None" and "getElementByKey b' key \<noteq> None"
    then obtain r e' where s': "getElementByKey b' key = Some (r, e')" by auto
    then obtain js where js: "keyIndices key = map Some js"
      and d: "walk b' js = Some r" and at: "nodeAt b' r = Some e'"
      unfolding getElementByKey_walk by blast
    from same_shape_nodeAt [OF sh [symmetric] at] obtain e where e: "nodeAt b r = Some e" by blast
    have "walk b js = Some r" using d walk_same_shape [OF sh] by simp
    with js e have "getElementByKey b key = Some (r, e)" unfolding getElementByKey_walk by blast
    with n show False by simp
  qed
qed

lemma refOf_same_shape: "shape b = shape b' \<Longrightarrow> refOf b key = refOf b' key"
proof (cases "getElementByKey b key")
  case None
  assume "shape b = shape b'"
  from same_shape_getElementByKey(2) [OF this None] None show ?thesis by (simp add: refOf_def)
next
  case (Some p)
  assume sh: "shape b = shape b'"
  obtain r e where p: "p = (r, e)" by (cases p)
  from same_shape_getElementByKey(1) [OF sh Some [unfolded p]] Some p show ?thesis
    by (auto simp: refOf_def)
qed

lemma nodeAt_append:
  "nodeAt b (r @ q) = (case nodeAt b r of None \<Rightarrow> None | Some n \<Rightarrow> nodeAt n q)"
  by (induction r arbitrary: b) auto

lemma textNodes_are_Text:
  "\<forall>p\<in>set (textNodes n). \<exists>s. nodeAt n p = Some (Text s)"
  "\<forall>p\<in>set (textNodesIn k cs). \<exists>j p'. p = (k + j) # p' \<and> j < length cs \<and>
       (\<exists>s. nodeAt (cs ! j) p' = Some (Text s))"
proof (induction n and k cs rule: textNodes_textNodesIn.induct)
  case (3 a cs)
  then show ?case by fastforce
next
  case (5 k c cs)
  show ?case
  proof
    fix p assume "p \<in> set (textNodesIn k (c # cs))"
    then consider (hd) p' where "p = k # p'" "p' \<in> set (textNodes c)"
      | (tl) "p \<in> set (textNodesIn (Suc k) cs)" by auto
    then show "\<exists>j p'. p = (k + j) # p' \<and> j < length (c # cs) \<and>
       (\<exists>s. nodeAt ((c # cs) ! j) p' = Some (Text s))"
    proof cases
      case hd
      with 5(1) obtain s where "nodeAt c p' = Some (Text s)" by blast
      with hd show ?thesis by (intro exI [of _ 0] exI [of _ p']) simp
    next
      case tl
      with 5(2) obtain j p' s where "p = (Suc k + j) # p'" "j < length cs"
        "nodeAt (cs ! j) p' = Some (Text s)" by blast
      then show ?thesis by (intro exI [of _ "Suc j"] exI [of _ p']) simp
    qed
  qed
qed simp_all

lemma walkTextNodes_are_Text:
  "p \<in> set (walkTextNodes el) \<Longrightarrow> \<exists>s. nodeAt el p = Some (Text s)"
  using textNodes_are_Text(1) [of el] by (auto simp: walkTextNodes_def split: if_splits)

lemma nodeAt_modifyAt_self:
  "nodeAt b q = Some n \<Longrightarrow> nodeAt (modifyAt q f b) q = Some (f n)"
proof (induction q arbitrary: b)
  case Nil
  then show ?case by simp
next
  case (Cons k q)
  then show ?case by (cases b) (auto split: if_splits)
qed

lemma nodeAt_setText_other:
  "\<not> prefix r q \<Longrightarrow> nodeAt (setText q t b) r = nodeAt b r"
  unfolding setText_def
proof (induction q arbitrary: r b)
  case Nil
  then obtain k r' where "r = k # r'" by (cases r) auto
  then show ?case by simp
next
  case (Cons k q)
  from Cons.prems obtain j r' where r: "r = j # r'" by (cases r) auto
  show ?case
  proof (cases b)
    case (Element a cs)
    show ?thesis
    proof (cases "k < length cs")
      case True
      show ?thesis
      proof (cases "j = k")
        case True
        with Cons.prems r have "\<not> prefix r' q" by simp
        from Cons.IH [OF this] Element \<open>k < length cs\<close> True r show ?thesis by simp
      next
        case False
        then show ?thesis using Element True r by simp
      qed
    next
      case False
      then show ?thesis using Element by simp
    qed
  qed simp_all
qed


lemma applyEdit_cases:
  "applyEdit (key, newText) st = st \<or>
   (\<exists>r el p ps s. getElementByKey (fst st) key = Some (r, el) \<and>
       js_trim (textContent el) \<noteq> newText \<and>
       isEditing (attrsOf el) \<noteq> Some (str ''true'') \<and>
       walkTextNodes el = p # ps \<and> nodeAt (fst st) (r @ p) = Some (Text s) \<and>
       applyEdit (key, newText) st = (setText (r @ p) newText (fst st), snd st @ [(r @ p, newText)]))"
proof (cases "getElementByKey (fst st) key")
  case None
  then show ?thesis by (simp add: applyEdit_def)
next
  case (Some x)
  obtain r el where x: "x = (r, el)" by (cases x)
  show ?thesis
  proof (cases "js_trim (textContent el) \<noteq> newText \<and> isEditing (attrsOf el) \<noteq> Some (str ''true'')")
    case False
    then show ?thesis using Some x by (auto simp: applyEdit_def Let_def)
  next
    case True
    show ?thesis
    proof (cases "walkTextNodes el")
      case Nil
      then show ?thesis using Some x True by (simp add: applyEdit_def Let_def)
    next
      case (Cons p ps)
      then have "p \<in> set (walkTextNodes el)" by simp
      from walkTextNodes_are_Text [OF this] obtain s where "nodeAt el p = Some (Text s)" by blast
      moreover have "nodeAt (fst st) r = Some el" using Some x by (simp add: getElementByKey_nodeAt)
      ultimately have "nodeAt (fst st) (r @ p) = Some (Text s)" by (simp add: nodeAt_append)
      then show ?thesis using Some x True Cons by (simp add: applyEdit_def Let_def)
    qed
  qed
qed

lemma applyEdit_editing:
  "getElementByKey (fst st) key = Some (r, el) \<Longrightarrow> isEditing (attrsOf el) = Some (str ''true'') \<Longrightarrow>
   applyEdit (key, newText) st = st"
  by (simp add: applyEdit_def Let_def)


lemma prefix_append_cases:
  "prefix r (r' @ p) \<Longrightarrow> prefix r r' \<or> prefix r' r"
  by (auto simp: prefix_append)

lemma applyEdit_keeps_editing:
  assumes at: "nodeAt b r = Some el"
    and ed: "isEditing (attrsOf el) = Some (str ''true'')"
    and k: "refOf b (fst e) = Some r \<or> apart (Some r) (refOf b (fst e))"
  shows "nodeAt (fst (applyEdit e (b, l))) r = Some el"
proof -
  obtain k' t' where e: "e = (k', t')" by (cases e)
  from applyEdit_cases [of k' t' "(b, l)"] show ?thesis
  proof
    assume "applyEdit (k', t') (b, l) = (b, l)"
    then show ?thesis using at e by simp
  next
    assume "\<exists>r el p ps s. getElementByKey (fst (b, l)) k' = Some (r, el) \<and>
       js_trim (textContent el) \<noteq> t' \<and>
       isEditing (attrsOf el) \<noteq> Some (str ''true'') \<and>
       walkTextNodes el = p # ps \<and> nodeAt (fst (b, l)) (r @ p) = Some (Text s) \<and>
       applyEdit (k', t') (b, l) = (setText (r @ p) t' (fst (b, l)), snd (b, l) @ [(r @ p, t')])"
    then obtain r' el' p where g': "getElementByKey b k' = Some (r', el')"
      and ned: "isEditing (attrsOf el') \<noteq> Some (str ''true'')"
      and step: "applyEdit (k', t') (b, l) = (setText (r' @ p) t' b, l @ [(r' @ p, t')])"
      by auto
    have ref: "refOf b k' = Some r'" using g' by (simp add: refOf_def)
    have at': "nodeAt b r' = Some el'" using g' by (rule getElementByKey_nodeAt)
    have "r' \<noteq> r" using at at' ed ned by auto
    with k e ref have "\<not> prefix r r'" "\<not> prefix r' r" by (simp_all add: apart_def)
    then have "\<not> prefix r (r' @ p)" using prefix_append_cases by blast
    then have "nodeAt (setText (r' @ p) t' b) r = nodeAt b r" by (rule nodeAt_setText_other)
    then show ?thesis unfolding e step using at by simp
  qed
qed

lemma fold_keeps_editing:
  assumes "nodeAt b r = Some el"
    and "isEditing (attrsOf el) = Some (str ''true'')"
    and "shape b = shape body"
    and "list_all (\<lambda>k. refOf body k = Some r \<or> apart (Some r) (refOf body k)) (map fst es)"
  shows "nodeAt (fst (fold applyEdit es (b, l))) r = Some el"
  using assms
proof (induction es arbitrary: b l)
  case Nil
  then show ?case by simp
next
  case (Cons e es)
  obtain b1 l1 where st: "applyEdit e (b, l) = (b1, l1)" by (cases "applyEdit e (b, l)")
  have sh1: "shape b1 = shape body"
    using shape_applyEdit [of e "(b, l)"] st Cons.prems(3) by simp
  have "refOf b (fst e) = Some r \<or> apart (Some r) (refOf b (fst e))"
    using Cons.prems(4) refOf_same_shape [OF Cons.prems(3)] by simp
  from applyEdit_keeps_editing [OF Cons.prems(1,2) this, where l = l] st
  have at1: "nodeAt b1 r = Some el" by simp
  have "list_all (\<lambda>k. refOf body k = Some r \<or> apart (Some r) (refOf body k)) (map fst es)"
    using Cons.prems(4) by simp
  from Cons.IH [OF at1 Cons.prems(2) sh1 this, where l = l1] st show ?case by simp
qed


lemmas reconcile_defs = exEditingDoc_def exMarkupDoc_def keyIndexFields_def isNumeral_def

lemma exSpan_text:
  "js_trim (textContent exSpan) = str ''Hello World''"
  "walkTextNodes exSpan = [[0]]"
  "isEditing (attrsOf exSpan) = None"
  by (simp_all add: ex_defs js_trim_def isWhiteSpace_numeral walkTextNodes_def)

lemma applyEdit_exSpan:
  assumes "getElementByKey exDoc key = Some ([0, 1], exSpan)"
  shows "applyEdit (key, str ''New'') (exDoc, []) =
   (setText [0, 1, 0] (str ''New'') exDoc, [([0, 1, 0], str ''New'')])"
proof -
  have "str ''Hello World'' \<noteq> str ''New''" by (simp add: str_def)
  then show ?thesis unfolding applyEdit_def by (simp add: assms exSpan_text Let_def)
qed

text \<open>
  Claim C4, as amended. Take a pass of \<^verbatim>\<open>applyEdits\<close> over an edit set and any entry
  \<open>(key, newText)\<close> of it, and let \<open>st\<close> be the state of the loop when it reaches the entry.
  The document after the pass has the shape of the document before it: no element or
  other node is created or removed and no attribute changes. The turn for the entry
  either leaves \<open>st\<close> as it is, or the key resolves to an element whose trimmed text
  differs from \<open>newText\<close> and whose own is-editing marker is not \<^verbatim>\<open>"true"\<close>, and the turn
  makes one write: it assigns \<open>newText\<close> to the first Text node below that element, a Text
  node that was there before, and every node that is not that Text node or one of its
  ancestors is as before. When the key resolves to an element whose is-editing marker is
  \<^verbatim>\<open>"true"\<close>, the turn leaves \<open>st\<close> as it is, whatever the stored text. An element whose
  is-editing marker is \<^verbatim>\<open>"true"\<close> is the same after the whole pass, text included, when
  every key of the edit set that resolves in the document resolves to that element or to
  an element that is neither above nor below it.
\<close>

theorem C4_applyEdits_writes_text_only:
  fixes body edits before after key newText
  defines "st \<equiv> applyEdits_loop before body"
  assumes edits: "edits = before @ (key, newText) # after"
  shows "shape (fst (applyEdits_loop edits body)) = shape body \<and>
         applyEdits_loop edits body = fold applyEdit after (applyEdit (key, newText) st) \<and>
         (applyEdit (key, newText) st = st \<or>
          (\<exists>r el p ps s. getElementByKey (fst st) key = Some (r, el) \<and>
               js_trim (textContent el) \<noteq> newText \<and>
               isEditing (attrsOf el) \<noteq> Some (str ''true'') \<and>
               walkTextNodes el = p # ps \<and> nodeAt (fst st) (r @ p) = Some (Text s) \<and>
               applyEdit (key, newText) st =
                 (setText (r @ p) newText (fst st), snd st @ [(r @ p, newText)]) \<and>
               nodeAt (setText (r @ p) newText (fst st)) (r @ p) = Some (Text newText) \<and>
               (\<forall>q. \<not> prefix q (r @ p) \<longrightarrow>
                  nodeAt (setText (r @ p) newText (fst st)) q = nodeAt (fst st) q))) \<and>
         (\<forall>r el. getElementByKey (fst st) key = Some (r, el) \<and>
                 isEditing (attrsOf el) = Some (str ''true'') \<longrightarrow>
                 applyEdit (key, newText) st = st) \<and>
         (\<forall>r el. nodeAt body r = Some el \<and> isEditing (attrsOf el) = Some (str ''true'') \<and>
                 list_all (\<lambda>k. refOf body k = Some r \<or> apart (Some r) (refOf body k))
                   (map fst edits) \<longrightarrow>
                 nodeAt (fst (applyEdits_loop edits body)) r = Some el)"
proof -
  have sh: "shape (fst (applyEdits_loop edits body)) = shape body"
    by (simp add: applyEdits_loop_def)
  have loop: "applyEdits_loop edits body = fold applyEdit after (applyEdit (key, newText) st)"
    by (simp add: applyEdits_loop_def edits st_def)
  have step: "applyEdit (key, newText) st = st \<or>
          (\<exists>r el p ps s. getElementByKey (fst st) key = Some (r, el) \<and>
               js_trim (textContent el) \<noteq> newText \<and>
               isEditing (attrsOf el) \<noteq> Some (str ''true'') \<and>
               walkTextNodes el = p # ps \<and> nodeAt (fst st) (r @ p) = Some (Text s) \<and>
               applyEdit (key, newText) st =
                 (setText (r @ p) newText (fst st), snd st @ [(r @ p, newText)]) \<and>
               nodeAt (setText (r @ p) newText (fst st)) (r @ p) = Some (Text newText) \<and>
               (\<forall>q. \<not> prefix q (r @ p) \<longrightarrow>
                  nodeAt (setText (r @ p) newText (fst st)) q = nodeAt (fst st) q))"
    using applyEdit_cases [of key newText st]
  proof
    assume "applyEdit (key, newText) st = st"
    then show ?thesis by simp
  next
    assume "\<exists>r el p ps s. getElementByKey (fst st) key = Some (r, el) \<and>
       js_trim (textContent el) \<noteq> newText \<and>
       isEditing (attrsOf el) \<noteq> Some (str ''true'') \<and>
       walkTextNodes el = p # ps \<and> nodeAt (fst st) (r @ p) = Some (Text s) \<and>
       applyEdit (key, newText) st = (setText (r @ p) newText (fst st), snd st @ [(r @ p, newText)])"
    then obtain r el p ps s where w: "getElementByKey (fst st) key = Some (r, el)"
       "js_trim (textContent el) \<noteq> newText"
       "isEditing (attrsOf el) \<noteq> Some (str ''true'')"
       "walkTextNodes el = p # ps" "nodeAt (fst st) (r @ p) = Some (Text s)"
       "applyEdit (key, newText) st = (setText (r @ p) newText (fst st), snd st @ [(r @ p, newText)])"
      by blast
    have "nodeAt (setText (r @ p) newText (fst st)) (r @ p) = Some (Text newText)"
      unfolding setText_def using nodeAt_modifyAt_self [OF w(5), of "textSetter newText"]
      by (simp add: textSetter_def)
    moreover have "\<forall>q. \<not> prefix q (r @ p) \<longrightarrow>
                  nodeAt (setText (r @ p) newText (fst st)) q = nodeAt (fst st) q"
      by (simp add: nodeAt_setText_other)
    ultimately show ?thesis using w by blast
  qed
  have ed: "\<forall>r el. getElementByKey (fst st) key = Some (r, el) \<and>
                 isEditing (attrsOf el) = Some (str ''true'') \<longrightarrow>
                 applyEdit (key, newText) st = st"
    by (auto intro: applyEdit_editing)
  have pass: "\<forall>r el. nodeAt body r = Some el \<and> isEditing (attrsOf el) = Some (str ''true'') \<and>
                 list_all (\<lambda>k. refOf body k = Some r \<or> apart (Some r) (refOf body k))
                   (map fst edits) \<longrightarrow>
                 nodeAt (fst (applyEdits_loop edits body)) r = Some el"
    unfolding applyEdits_loop_def by (auto intro: fold_keeps_editing)
  from sh loop step ed pass show ?thesis by blast
qed

theorem C4_applyEdits_writes_text_only_witness:
  "applyEdits_loop [(str ''DIV:0>SPAN:0'', str ''New'')] exDoc =
     (setText [0, 1, 0] (str ''New'') exDoc, [([0, 1, 0], str ''New'')]) \<and>
   nodeAt (setText [0, 1, 0] (str ''New'') exDoc) [0, 1, 0] = Some (Text (str ''New'')) \<and>
   shape (fst (applyEdits_loop [(str ''DIV:0>SPAN:0'', str ''New'')] exDoc)) = shape exDoc \<and>
   applyEdits_loop [(str ''DIV:0>SPAN:0'', str ''New'')] exEditingDoc = (exEditingDoc, []) \<and>
   nodeAt (fst (applyEdits_loop [(str ''DIV:0>SPAN:0'', str ''old'')] exNestedDoc)) [0, 0] =
     Some exNestedSpan"
proof -
  have g0: "getElementByKey exDoc (str ''DIV:0>SPAN:0'') = Some ([0, 1], exSpan)"
    by (simp add: ex_defs codec_defs)
  have w: "applyEdits_loop [(str ''DIV:0>SPAN:0'', str ''New'')] exDoc =
     (setText [0, 1, 0] (str ''New'') exDoc, [([0, 1, 0], str ''New'')])"
    by (simp add: applyEdits_loop_def applyEdit_exSpan [OF g0])
  have t: "nodeAt (setText [0, 1, 0] (str ''New'') exDoc) [0, 1, 0] = Some (Text (str ''New''))"
    by (simp add: setText_def textSetter_def ex_defs)
  have g: "getElementByKey exEditingDoc (str ''DIV:0>SPAN:0'') =
      Some ([0, 1], Element ((mkAttrs (str ''SPAN''))\<lparr>isEditing := Some (str ''true'')\<rparr>)
             [Text (str '' Hello World '')])"
    by (simp add: reconcile_defs ex_defs codec_defs)
  have a: "isEditing (attrsOf (Element ((mkAttrs (str ''SPAN''))\<lparr>isEditing := Some (str ''true'')\<rparr>)
             [Text (str '' Hello World '')])) = Some (str ''true'')"
    by simp
  have e: "applyEdits_loop [] exEditingDoc = (exEditingDoc, [])"
    by (simp add: applyEdits_loop_def)
  note c4 = C4_applyEdits_writes_text_only [where before = "[]" and after = "[]"
        and key = "str ''DIV:0>SPAN:0''" and newText = "str ''New''", OF refl, unfolded append_Nil]
  have s: "shape (fst (applyEdits_loop [(str ''DIV:0>SPAN:0'', str ''New'')] exDoc)) = shape exDoc"
    using c4 [of exDoc, THEN conjunct1] .
  have l: "applyEdits_loop [(str ''DIV:0>SPAN:0'', str ''New'')] exEditingDoc =
      fold applyEdit [] (applyEdit (str ''DIV:0>SPAN:0'', str ''New'') (applyEdits_loop [] exEditingDoc))"
    using c4 [of exEditingDoc, THEN conjunct2, THEN conjunct1] .
  have "\<forall>r el. getElementByKey (fst (applyEdits_loop [] exEditingDoc)) (str ''DIV:0>SPAN:0'') = Some (r, el) \<and>
      isEditing (attrsOf el) = Some (str ''true'') \<longrightarrow>
      applyEdit (str ''DIV:0>SPAN:0'', str ''New'') (applyEdits_loop [] exEditingDoc) =
        applyEdits_loop [] exEditingDoc"
    using c4 [of exEditingDoc, THEN conjunct2, THEN conjunct2, THEN conjunct2, THEN conjunct1] .
  then have "applyEdit (str ''DIV:0>SPAN:0'', str ''New'') (exEditingDoc, []) = (exEditingDoc, [])"
    unfolding e fst_conv using g a by blast
  then have x: "applyEdits_loop [(str ''DIV:0>SPAN:0'', str ''New'')] exEditingDoc = (exEditingDoc, [])"
    using l e by simp
  have n1: "nodeAt exNestedDoc [0, 0] = Some exNestedSpan"
    by (simp add: exNestedDoc_def)
  have n2: "isEditing (attrsOf exNestedSpan) = Some (str ''true'')"
    by (simp add: exNestedSpan_def)
  have n3: "refOf exNestedDoc (str ''DIV:0>SPAN:0'') = Some [0, 0]"
    by (simp add: refOf_def exNestedDoc_def exNestedSpan_def ex_defs codec_defs)
  note c4' = C4_applyEdits_writes_text_only [where before = "[]" and after = "[]"
        and key = "str ''DIV:0>SPAN:0''" and newText = "str ''old''", OF refl, unfolded append_Nil]
  have n4: "list_all (\<lambda>k. refOf exNestedDoc k = Some [0, 0] \<or>
         apart (Some [0, 0]) (refOf exNestedDoc k)) (map fst [(str ''DIV:0>SPAN:0'', str ''old'')])"
    using n3 by simp
  have "\<forall>r el. nodeAt exNestedDoc r = Some el \<and> isEditing (attrsOf el) = Some (str ''true'') \<and>
      list_all (\<lambda>k. refOf exNestedDoc k = Some r \<or> apart (Some r) (refOf exNestedDoc k))
        (map fst [(str ''DIV:0>SPAN:0'', str ''old'')]) \<longrightarrow>
      nodeAt (fst (applyEdits_loop [(str ''DIV:0>SPAN:0'', str ''old'')] exNestedDoc)) r = Some el"
    using c4' [of exNestedDoc, THEN conjunct2, THEN conjunct2, THEN conjunct2, THEN conjunct2] .
  then have n: "nodeAt (fst (applyEdits_loop [(str ''DIV:0>SPAN:0'', str ''old'')] exNestedDoc)) [0, 0] =
     Some exNestedSpan"
    using n1 n2 n4 by blast
  from w t s x n show ?thesis by simp
qed

text \<open>
  Claim C4 as first stated fails for an element in the middle of an edit that lies
  inside another element with a stored text. In
  \<^verbatim>\<open><body><div><span data-is-editing="true">abc</span></div></body>\<close> with the edit set
  \<^verbatim>\<open>{"DIV:0": "X", "DIV:0>SPAN:0": "old"}\<close>, the entry of the \<^verbatim>\<open>div\<close> finds the \<^verbatim>\<open>div\<close>
  with the text \<^verbatim>\<open>abc\<close> and no is-editing marker of its own, and the first Text node of
  its tree walk is the one inside the \<^verbatim>\<open>span\<close>: the pass writes \<^verbatim>\<open>X\<close> there. The entry of
  the \<^verbatim>\<open>span\<close> itself is skipped, as the marker asks.
\<close>

theorem C4_counterexample:
  "nodeAt exNestedDoc [0, 0] = Some exNestedSpan \<and>
   isEditing (attrsOf exNestedSpan) = Some (str ''true'') \<and>
   textContent exNestedSpan = str ''abc'' \<and>
   map_option fst (getElementByKey exNestedDoc (str ''DIV:0>SPAN:0'')) = Some [0, 0] \<and>
   applyEdits_loop [(str ''DIV:0'', str ''X''), (str ''DIV:0>SPAN:0'', str ''old'')] exNestedDoc =
     (setText [0, 0, 0] (str ''X'') exNestedDoc, [([0, 0, 0], str ''X'')]) \<and>
   map_option textContent (nodeAt (setText [0, 0, 0] (str ''X'') exNestedDoc) [0, 0]) =
     Some (str ''X'')"
proof -
  have n1: "nodeAt exNestedDoc [0, 0] = Some exNestedSpan"
    by (simp add: exNestedDoc_def)
  have n2: "isEditing (attrsOf exNestedSpan) = Some (str ''true'')"
    by (simp add: exNestedSpan_def)
  have n3: "textContent exNestedSpan = str ''abc''"
    by (simp add: exNestedSpan_def)
  have g1: "getElementByKey exNestedDoc (str ''DIV:0'') =
      Some ([0], Element (mkAttrs (str ''DIV'')) [exNestedSpan])"
    by (simp add: exNestedDoc_def exNestedSpan_def ex_defs codec_defs)
  have g2: "getElementByKey exNestedDoc (str ''DIV:0>SPAN:0'') = Some ([0, 0], exNestedSpan)"
    by (simp add: exNestedDoc_def exNestedSpan_def ex_defs codec_defs)
  have d: "setText [0, 0, 0] (str ''X'') exNestedDoc =
      Element (mkAttrs (str ''BODY'')) [Element (mkAttrs (str ''DIV''))
        [Element ((mkAttrs (str ''SPAN''))\<lparr>isEditing := Some (str ''true'')\<rparr>) [Text (str ''X'')]]]"
    by (simp add: setText_def textSetter_def exNestedDoc_def exNestedSpan_def)
  have g3: "getElementByKey (setText [0, 0, 0] (str ''X'') exNestedDoc) (str ''DIV:0>SPAN:0'') =
      Some ([0, 0], Element ((mkAttrs (str ''SPAN''))\<lparr>isEditing := Some (str ''true'')\<rparr>)
         [Text (str ''X'')])"
    unfolding d by (simp add: ex_defs codec_defs)
  have ne: "str ''abc'' \<noteq> str ''X''" by (simp add: str_def)
  have t1: "js_trim (textContent (Element (mkAttrs (str ''DIV'')) [exNestedSpan])) = str ''abc''"
    by (simp add: exNestedSpan_def js_trim_def isWhiteSpace_numeral ex_defs)
  have t2: "js_trim (textContent exNestedSpan) = str ''abc''"
    by (simp add: exNestedSpan_def js_trim_def isWhiteSpace_numeral ex_defs)
  have t3: "isEditing (mkAttrs (str ''DIV'')) = None"
    by (simp add: mkAttrs_def)
  have w1: "walkTextNodes (Element (mkAttrs (str ''DIV'')) [exNestedSpan]) = [[0, 0]]"
    by (simp add: walkTextNodes_def exNestedSpan_def)
  have a1: "applyEdit (str ''DIV:0'', str ''X'') (exNestedDoc, []) =
      (setText [0, 0, 0] (str ''X'') exNestedDoc, [([0, 0, 0], str ''X'')])"
    unfolding applyEdit_def using ne by (simp add: g1 t1 t2 t3 w1 Let_def)
  have a3: "isEditing (attrsOf (Element ((mkAttrs (str ''SPAN''))\<lparr>isEditing := Some (str ''true'')\<rparr>)
         [Text (str ''X'')])) = Some (str ''true'')"
    by simp
  have a2: "applyEdit (str ''DIV:0>SPAN:0'', str ''old'')
       (setText [0, 0, 0] (str ''X'') exNestedDoc, [([0, 0, 0], str ''X'')]) =
      (setText [0, 0, 0] (str ''X'') exNestedDoc, [([0, 0, 0], str ''X'')])"
    by (rule applyEdit_editing [OF _ a3]) (simp add: g3)
  have l: "applyEdits_loop [(str ''DIV:0'', str ''X''), (str ''DIV:0>SPAN:0'', str ''old'')] exNestedDoc =
     (setText [0, 0, 0] (str ''X'') exNestedDoc, [([0, 0, 0], str ''X'')])"
    by (simp add: applyEdits_loop_def a1 a2)
  have r: "map_option textContent (nodeAt (setText [0, 0, 0] (str ''X'') exNestedDoc) [0, 0]) =
     Some (str ''X'')"
    unfolding d by simp
  from n1 n2 n3 g2 l r show ?thesis by simp
qed




section \<open>Running the Reconciler twice\<close>

lemma nodeAt_modifyAt_prefix:
  "nodeAt (modifyAt (r @ q) f b) r = map_option (modifyAt q f) (nodeAt b r)"
proof (induction r arbitrary: b)
  case Nil
  then show ?case by simp
next
  case (Cons k r)
  show ?case
  proof (cases b)
    case (Element a cs)
    then show ?thesis using Cons.IH [of "cs ! k"] by simp
  qed simp_all
qed

lemma append_singleton:
  "xs @ ys = [p] \<longleftrightarrow> (xs = [p] \<and> ys = []) \<or> (xs = [] \<and> ys = [p])"
  by (cases xs) auto

lemma textContent_single:
  "(textNodes n = [] \<longrightarrow> textContent n = []) \<and>
   (\<forall>p. textNodes n = [p] \<longrightarrow> textContent (modifyAt p (textSetter t) n) = t)"
  "(textNodesIn k cs = [] \<longrightarrow> concat (map textContent cs) = []) \<and>
   (\<forall>p. textNodesIn k cs = [p] \<longrightarrow>
      (\<exists>j p'. p = (k + j) # p' \<and> j < length cs \<and>
         concat (map textContent (cs[j := modifyAt p' (textSetter t) (cs ! j)])) = t))"
proof (induction n and k cs rule: textNodes_textNodesIn.induct)
  case (1 s)
  then show ?case by (simp add: textSetter_def)
next
  case (2 s)
  then show ?case by simp
next
  case (3 a cs)
  show ?case
  proof (intro conjI allI impI)
    assume "textNodes (Element a cs) = []"
    then show "textContent (Element a cs) = []" using 3 by simp
  next
    fix p assume "textNodes (Element a cs) = [p]"
    then have "textNodesIn 0 cs = [p]" by simp
    with 3 obtain j p' where p: "p = j # p'" and j: "j < length cs"
      and c: "concat (map textContent (cs[j := modifyAt p' (textSetter t) (cs ! j)])) = t"
      by auto
    then show "textContent (modifyAt p (textSetter t) (Element a cs)) = t" by simp
  qed
next
  case (4 k)
  then show ?case by simp
next
  case (5 k c cs)
  show ?case
  proof (intro conjI allI impI)
    assume "textNodesIn k (c # cs) = []"
    then show "concat (map textContent (c # cs)) = []" using 5 by simp
  next
    fix p assume "textNodesIn k (c # cs) = [p]"
    then have "map ((#) k) (textNodes c) @ textNodesIn (Suc k) cs = [p]" by simp
    then consider (here) "map ((#) k) (textNodes c) = [p]" "textNodesIn (Suc k) cs = []"
      | (there) "map ((#) k) (textNodes c) = []" "textNodesIn (Suc k) cs = [p]"
      unfolding append_singleton by blast
    then show "\<exists>j p'. p = (k + j) # p' \<and> j < length (c # cs) \<and>
         concat (map textContent ((c # cs)[j := modifyAt p' (textSetter t) ((c # cs) ! j)])) = t"
    proof cases
      case here
      then obtain p' where p': "textNodes c = [p']" "p = k # p'" by (auto simp: map_eq_Cons_conv)
      with 5 have "textContent (modifyAt p' (textSetter t) c) = t" by blast
      moreover have "concat (map textContent cs) = []" using 5 here(2) by blast
      ultimately show ?thesis using p' by (intro exI [of _ 0] exI [of _ p']) simp
    next
      case there
      then have e: "textContent c = []" using 5 by simp
      from there 5 obtain j p' where "p = (Suc k + j) # p'" "j < length cs"
        "concat (map textContent (cs[j := modifyAt p' (textSetter t) (cs ! j)])) = t" by blast
      then show ?thesis using e by (intro exI [of _ "Suc j"] exI [of _ p']) simp
    qed
  qed
qed

lemma textContent_setText_single:
  "walkTextNodes el = [p] \<Longrightarrow> textContent (modifyAt p (textSetter t) el) = t"
  using textContent_single(1) [of el t] by (auto simp: walkTextNodes_def split: if_splits)

lemma applyEdit_settled: "settled (fst st) e \<Longrightarrow> applyEdit e st = st"
  by (auto simp: settled_def applyEdit_def Let_def split: option.splits prod.splits)

lemma fold_applyEdit_settled:
  "\<forall>e\<in>set es. settled (fst st) e \<Longrightarrow> fold applyEdit es st = st"
  by (induction es) (simp_all add: applyEdit_settled)

lemma same_shape_walk:
  "shape e' = shape e \<Longrightarrow> walkTextNodes e' = walkTextNodes e"
  by (metis walkTextNodes_shape)

lemma applyEdit_settles_own:
  assumes trimmed: "js_trim t = t"
    and single: "\<forall>r el. getElementByKey b k = Some (r, el) \<longrightarrow> length (walkTextNodes el) \<le> 1"
  shows "settled (fst (applyEdit (k, t) (b, l))) (k, t)"
proof (cases "settled b (k, t)")
  case True
  then show ?thesis using applyEdit_settled [of "(b, l)" "(k, t)"] by simp
next
  case False
  then obtain r el where g: "getElementByKey b k = Some (r, el)"
    and ne: "js_trim (textContent el) \<noteq> t"
    and ned: "isEditing (attrsOf el) \<noteq> Some (str ''true'')"
    and w: "walkTextNodes el \<noteq> []"
    by (auto simp: settled_def split: option.splits)
  from single g have "length (walkTextNodes el) \<le> 1" by blast
  with w obtain p where p: "walkTextNodes el = [p]"
    by (cases "walkTextNodes el") auto
  let ?b' = "setText (r @ p) t b"
  have step: "applyEdit (k, t) (b, l) = (?b', l @ [(r @ p, t)])"
    using g ne ned p by (simp add: applyEdit_def Let_def)
  have at: "nodeAt b r = Some el" using g by (rule getElementByKey_nodeAt)
  have "shape b = shape ?b'" by simp
  from same_shape_getElementByKey(1) [OF this g]
  obtain el' where g': "getElementByKey ?b' k = Some (r, el')" by blast
  then have "nodeAt ?b' r = Some el'" by (rule getElementByKey_nodeAt)
  moreover have "nodeAt ?b' r = Some (modifyAt p (textSetter t) el)"
    unfolding setText_def using at by (simp add: nodeAt_modifyAt_prefix)
  ultimately have el': "el' = modifyAt p (textSetter t) el" by simp
  have "textContent el' = t" unfolding el' using p by (rule textContent_setText_single)
  then show ?thesis unfolding step using g' trimmed by (simp add: settled_def)
qed

lemma applyEdit_keeps_settled:
  assumes s: "settled b e"
    and ap: "apart (refOf b (fst e)) (refOf b (fst e'))"
  shows "settled (fst (applyEdit e' (b, l))) e"
proof -
  obtain k' t' where e': "e' = (k', t')" by (cases e')
  from applyEdit_cases [of k' t' "(b, l)"] show ?thesis
  proof
    assume "applyEdit (k', t') (b, l) = (b, l)"
    then show ?thesis using s e' by simp
  next
    assume "\<exists>r el p ps s. getElementByKey (fst (b, l)) k' = Some (r, el) \<and>
       js_trim (textContent el) \<noteq> t' \<and>
       isEditing (attrsOf el) \<noteq> Some (str ''true'') \<and>
       walkTextNodes el = p # ps \<and> nodeAt (fst (b, l)) (r @ p) = Some (Text s) \<and>
       applyEdit (k', t') (b, l) = (setText (r @ p) t' (fst (b, l)), snd (b, l) @ [(r @ p, t')])"
    then obtain r' el' p where g': "getElementByKey b k' = Some (r', el')"
      and step: "applyEdit (k', t') (b, l) = (setText (r' @ p) t' b, l @ [(r' @ p, t')])"
      by auto
    let ?b' = "setText (r' @ p) t' b"
    have sh: "shape b = shape ?b'" by simp
    show ?thesis
    proof (cases "getElementByKey b (fst e)")
      case None
      from same_shape_getElementByKey(2) [OF sh None] show ?thesis
        unfolding e' step by (simp add: settled_def)
    next
      case (Some x)
      obtain r el where x: "x = (r, el)" by (cases x)
      from ap Some x g' e' have np: "\<not> prefix r r'" "\<not> prefix r' r"
        by (simp_all add: apart_def refOf_def)
      then have "\<not> prefix r (r' @ p)" using prefix_append_cases by blast
      then have same: "nodeAt ?b' r = nodeAt b r" by (rule nodeAt_setText_other)
      from same_shape_getElementByKey(1) [OF sh Some [unfolded x]]
      obtain el2 where g2: "getElementByKey ?b' (fst e) = Some (r, el2)" by blast
      then have "nodeAt ?b' r = Some el2" by (rule getElementByKey_nodeAt)
      moreover have "nodeAt b r = Some el" using Some x by (simp add: getElementByKey_nodeAt)
      ultimately have "el2 = el" using same by simp
      with g2 have "getElementByKey ?b' (fst e) = getElementByKey b (fst e)" using Some x by simp
      then show ?thesis unfolding e' step using s by (simp add: settled_def)
    qed
  qed
qed

lemma fold_keeps_settled:
  assumes "settled b e" and "shape b = shape body"
    and "list_all (\<lambda>k'. apart (refOf body (fst e)) (refOf body k')) (map fst es)"
  shows "settled (fst (fold applyEdit es (b, l))) e"
  using assms
proof (induction es arbitrary: b l)
  case Nil
  then show ?case by simp
next
  case (Cons e' es)
  obtain b1 l1 where st: "applyEdit e' (b, l) = (b1, l1)" by (cases "applyEdit e' (b, l)")
  have sh1: "shape b1 = shape body"
    using shape_applyEdit [of e' "(b, l)"] st Cons.prems(2) by simp
  have "apart (refOf b (fst e)) (refOf b (fst e'))"
    using Cons.prems(3) refOf_same_shape [OF Cons.prems(2)] by simp
  from applyEdit_keeps_settled [OF Cons.prems(1) this, where l = l] st
  have s1: "settled b1 e" by simp
  have "list_all (\<lambda>k'. apart (refOf body (fst e)) (refOf body k')) (map fst es)"
    using Cons.prems(3) by simp
  from Cons.IH [OF s1 sh1 this, where l = l1] st show ?case by simp
qed

lemma fold_settles_all:
  assumes "shape b = shape body"
    and "list_all (\<lambda>(k, t). js_trim t = t) es"
    and "singleText body es"
    and "separate body (map fst es)"
  shows "\<forall>e\<in>set es. settled (fst (fold applyEdit es (b, l))) e"
  using assms
proof (induction es arbitrary: b l)
  case Nil
  then show ?case by simp
next
  case (Cons e es)
  obtain k t where e: "e = (k, t)" by (cases e)
  obtain b1 l1 where st: "applyEdit e (b, l) = (b1, l1)" by (cases "applyEdit e (b, l)")
  have sh1: "shape b1 = shape body"
    using shape_applyEdit [of e "(b, l)"] st Cons.prems(1) by simp
  have tr: "js_trim t = t" using Cons.prems(2) e by simp
  have single: "\<forall>r el. getElementByKey b k = Some (r, el) \<longrightarrow> length (walkTextNodes el) \<le> 1"
  proof (intro allI impI)
    fix r el assume g: "getElementByKey b k = Some (r, el)"
    from same_shape_getElementByKey(1) [OF Cons.prems(1) g]
    obtain el0 where g0: "getElementByKey body k = Some (r, el0)" and s0: "shape el0 = shape el"
      by blast
    from Cons.prems(3) e g0 have "length (walkTextNodes el0) \<le> 1"
      by (simp add: singleText_def)
    then show "length (walkTextNodes el) \<le> 1" using same_shape_walk [OF s0] by simp
  qed
  from applyEdit_settles_own [OF tr single, where l = l] st e
  have own: "settled b1 e" by simp
  have "list_all (\<lambda>k'. apart (refOf body (fst e)) (refOf body k')) (map fst es)"
    using Cons.prems(4) by simp
  from fold_keeps_settled [OF own sh1 this, where l = l1]
  have first: "settled (fst (fold applyEdit es (b1, l1))) e" .
  have "list_all (\<lambda>(k, t). js_trim t = t) es" "singleText body es" "separate body (map fst es)"
    using Cons.prems by (simp_all add: singleText_def)
  from Cons.IH [OF sh1 this, where l = l1]
  have rest: "\<forall>e'\<in>set es. settled (fst (fold applyEdit es (b1, l1))) e'" .
  from first rest st show ?case by simp
qed

lemmas loop_defs = applyEdits_loop_def applyEdit_def setText_def textSetter_def
  walkTextNodes_def js_trim_def

text \<open>
  Claim C5, as amended. Let every stored text be its own trim, let every element that a
  stored key resolves to hold at most one Text node, and let no two stored keys resolve
  to the same element or to an element and one inside it. Then a second pass of
  \<^verbatim>\<open>applyEdits\<close>, run on the document as the first pass left it, makes no write and
  leaves the document as it is.
\<close>

theorem C5_second_pass_writes_nothing:
  assumes trimmed: "list_all (\<lambda>(key, text). js_trim text = text) edits"
    and single: "singleText body edits"
    and sep: "separate body (map fst edits)"
  shows "applyEdits_loop edits (fst (applyEdits_loop edits body)) =
           (fst (applyEdits_loop edits body), [])"
proof -
  let ?b1 = "fst (applyEdits_loop edits body)"
  have "\<forall>e\<in>set edits. settled ?b1 e"
    unfolding applyEdits_loop_def
    using fold_settles_all [OF refl trimmed single sep, where l = "[]"] .
  then have "fold applyEdit edits (?b1, []) = (?b1, [])"
    using fold_applyEdit_settled [of edits "(?b1, [])"] by simp
  then show ?thesis by (simp add: applyEdits_loop_def)
qed

theorem C5_second_pass_writes_nothing_witness:
  "applyEdits_loop [(str ''SPAN:0'', str ''uno''), (str ''SPAN:1'', str ''dos'')] exTwoDoc =
     (Element (mkAttrs (str ''BODY''))
        [Element (mkAttrs (str ''SPAN'')) [Text (str ''uno'')],
         Element (mkAttrs (str ''SPAN'')) [Text (str ''dos'')]],
      [([0, 0], str ''uno''), ([1, 0], str ''dos'')]) \<and>
   applyEdits_loop [(str ''SPAN:0'', str ''uno''), (str ''SPAN:1'', str ''dos'')]
     (fst (applyEdits_loop [(str ''SPAN:0'', str ''uno''), (str ''SPAN:1'', str ''dos'')] exTwoDoc)) =
     (fst (applyEdits_loop [(str ''SPAN:0'', str ''uno''), (str ''SPAN:1'', str ''dos'')] exTwoDoc), [])"
proof -
  let ?edits = "[(str ''SPAN:0'', str ''uno''), (str ''SPAN:1'', str ''dos'')]"
  have first: "applyEdits_loop ?edits exTwoDoc =
     (Element (mkAttrs (str ''BODY''))
        [Element (mkAttrs (str ''SPAN'')) [Text (str ''uno'')],
         Element (mkAttrs (str ''SPAN'')) [Text (str ''dos'')]],
      [([0, 0], str ''uno''), ([1, 0], str ''dos'')])"
    by (simp add: loop_defs exTwoDoc_def mkAttrs_def str_def codec_defs)
  have trimmed: "list_all (\<lambda>(key, text). js_trim text = text) ?edits"
    by (simp add: js_trim_def str_def isWhiteSpace_numeral)
  have g: "getElementByKey exTwoDoc (str ''SPAN:0'') =
        Some ([0], Element (mkAttrs (str ''SPAN'')) [Text (str ''one'')])"
    "getElementByKey exTwoDoc (str ''SPAN:1'') =
        Some ([1], Element (mkAttrs (str ''SPAN'')) [Text (str ''two'')])"
    by (simp_all add: exTwoDoc_def mkAttrs_def str_def codec_defs)
  have single: "singleText exTwoDoc ?edits"
    by (simp add: singleText_def g walkTextNodes_def)
  have sep: "separate exTwoDoc (map fst ?edits)"
    by (simp add: refOf_def apart_def g)
  from C5_second_pass_writes_nothing [OF trimmed single sep] first show ?thesis by simp
qed

text \<open>
  Claim C5 as stated fails. The \<^verbatim>\<open>span\<close> with the children \<^verbatim>\<open>Hello\<close> and \<^verbatim>\<open><b> World</b>\<close> has
  the stored text \<^verbatim>\<open>Hello\<close>: each pass finds the trimmed text \<^verbatim>\<open>Hello World\<close> different from
  it and assigns \<^verbatim>\<open>Hello\<close> to the first Text node, so the second pass writes as the first
  did. And two keys that resolve to the same element with different stored texts make
  every pass write both texts.
\<close>

theorem C5_counterexample:
  "js_trim (str ''Hello'') = str ''Hello'' \<and>
   applyEdits_loop [(str ''SPAN:0'', str ''Hello'')] exMarkupDoc =
     (exMarkupDoc, [([0, 0], str ''Hello'')]) \<and>
   applyEdits_loop [(str ''SPAN:0'', str ''Hello'')]
     (fst (applyEdits_loop [(str ''SPAN:0'', str ''Hello'')] exMarkupDoc)) =
     (exMarkupDoc, [([0, 0], str ''Hello'')]) \<and>
   snd (applyEdits_loop [(str ''P:0>A:0'', str ''x''), (str ''DIV:0>SPAN:0'', str ''y'')]
     (fst (applyEdits_loop [(str ''P:0>A:0'', str ''x''), (str ''DIV:0>SPAN:0'', str ''y'')] exDoc))) =
     [([0, 1, 0], str ''x''), ([0, 1, 0], str ''y'')]"
proof -
  have t: "js_trim (str ''Hello'') = str ''Hello''"
    by (simp add: js_trim_def str_def isWhiteSpace_numeral)
  have m: "applyEdits_loop [(str ''SPAN:0'', str ''Hello'')] exMarkupDoc =
      (exMarkupDoc, [([0, 0], str ''Hello'')])"
    by (simp add: loop_defs exMarkupDoc_def mkAttrs_def str_def codec_defs)
  have a1: "fst (applyEdits_loop [(str ''P:0>A:0'', str ''x''), (str ''DIV:0>SPAN:0'', str ''y'')] exDoc) =
      Element (mkAttrs (str ''BODY''))
        [Element ((mkAttrs (str ''DIV''))\<lparr>classList := [str ''_1b33'']\<rparr>)
          [Text (str '' ''), Element (mkAttrs (str ''SPAN'')) [Text (str ''y'')]]]"
    by (simp add: loop_defs ex_defs codec_defs)
  have a2: "snd (applyEdits_loop [(str ''P:0>A:0'', str ''x''), (str ''DIV:0>SPAN:0'', str ''y'')]
      (Element (mkAttrs (str ''BODY''))
        [Element ((mkAttrs (str ''DIV''))\<lparr>classList := [str ''_1b33'']\<rparr>)
          [Text (str '' ''), Element (mkAttrs (str ''SPAN'')) [Text (str ''y'')]]])) =
     [([0, 1, 0], str ''x''), ([0, 1, 0], str ''y'')]"
    by (simp add: loop_defs ex_defs codec_defs)
  from t m a2 show ?thesis unfolding a1 by simp
qed

end
